theory Spec2Isabelle
  imports Main "HOL-Library.Multiset"
begin

section \<open>Pathfinder: the A* engines of jzeiber/Pathfinder\<close>

text \<open>
  A shallow embedding of \<^verbatim>\<open>src/include/pathfinder.h\<close>,
  \<^verbatim>\<open>pathfinderastargeneric.h\<close>, \<^verbatim>\<open>pathfinderastargenericcached.h\<close> and
  \<^verbatim>\<open>pathfinderastartile8dircached.h\<close>.

  \<^item> \<^verbatim>\<open>NODETYPE\<close> is the type variable \<open>'n\<close>; \<^verbatim>\<open>COSTTYPE\<close> is instantiated with the
    integers (\<open>int\<close>), so that cost arithmetic is exact.
  \<^item> An \<^verbatim>\<open>astarnode *\<close> is an address into an explicit store \<open>store\<close> (a list of node
    records); \<^verbatim>\<open>NULL\<close> is \<open>None\<close>. The engine mutates nodes in place through the open
    list, the helper list and the parent pointers of other nodes, so the store is shared.
    \<^verbatim>\<open>astarallocator\<close> only recycles storage whose fields are all assigned again after
    \<^verbatim>\<open>allocate\<close>; the model allocates at the next free address of a store that is
    emptied where the code releases every node (\<^verbatim>\<open>ClearOpenList\<close>, \<^verbatim>\<open>ClearClosedList\<close>).
  \<^item> A callback functor is the pure function it computes; \<^verbatim>\<open>getneighbors(node, anf)\<close> is
    the list of the calls it makes to \<^verbatim>\<open>anf\<close>, in order.
  \<^item> Dereferencing a null \<^verbatim>\<open>m_currentnode\<close> has no defined result: functions that do so
    return \<open>None\<close> there. A loop that may run forever is a \<open>partial_function\<close> in the
    option monad, where not returning is \<open>None\<close> too.
\<close>

subsection \<open>pathfinder.h\<close>

datatype PathResult = PATH_FOUND | PATH_NOTFOUND | PATH_SEARCHING

subsection \<open>The heap algorithms of the C++ standard library\<close>

text \<open>
  \<^verbatim>\<open>std::push_heap\<close>, \<^verbatim>\<open>std::pop_heap\<close> and \<^verbatim>\<open>std::make_heap\<close> are not code of this
  repository, and the C++ standard fixes their contract, not the permutation they produce.
  They are a parameter of the model: a record of three functions from a comparator and a
  sequence to the rearranged sequence.
\<close>

record heap_ops =
  push_heap :: "(nat \<Rightarrow> nat \<Rightarrow> bool) \<Rightarrow> nat list \<Rightarrow> nat list"
  pop_heap :: "(nat \<Rightarrow> nat \<Rightarrow> bool) \<Rightarrow> nat list \<Rightarrow> nat list"
  make_heap :: "(nat \<Rightarrow> nat \<Rightarrow> bool) \<Rightarrow> nat list \<Rightarrow> nat list"

text \<open>\<^verbatim>\<open>std::is_heap\<close>: no element compares greater than its parent at \<open>(i - 1) div 2\<close>.\<close>

definition is_heap :: "(nat \<Rightarrow> nat \<Rightarrow> bool) \<Rightarrow> nat list \<Rightarrow> bool" where
  "is_heap cmp xs = (\<forall>i \<in> {1..<length xs}. \<not> cmp (xs ! ((i - 1) div 2)) (xs ! i))"

text \<open>
  The standard's contract, for the comparators the engines use (an integer key compared
  with \<open><\<close>, arguments swapped): \<^verbatim>\<open>push_heap\<close> on a heap with one more element at the back
  yields a heap; \<^verbatim>\<open>pop_heap\<close> on a non-empty heap moves the front to the back and leaves a
  heap before it; \<^verbatim>\<open>make_heap\<close> yields a heap; each only permutes the sequence.
\<close>

definition std_heap :: "heap_ops \<Rightarrow> bool" where
  "std_heap ops = (\<forall>(key :: nat \<Rightarrow> int) xs.
     (xs \<noteq> [] \<and> is_heap (\<lambda>l r. key r < key l) (butlast xs) \<longrightarrow>
        mset (push_heap ops (\<lambda>l r. key r < key l) xs) = mset xs \<and>
        is_heap (\<lambda>l r. key r < key l) (push_heap ops (\<lambda>l r. key r < key l) xs)) \<and>
     (xs \<noteq> [] \<and> is_heap (\<lambda>l r. key r < key l) xs \<longrightarrow>
        mset (pop_heap ops (\<lambda>l r. key r < key l) xs) = mset xs \<and>
        last (pop_heap ops (\<lambda>l r. key r < key l) xs) = hd xs \<and>
        is_heap (\<lambda>l r. key r < key l) (butlast (pop_heap ops (\<lambda>l r. key r < key l) xs))) \<and>
     mset (make_heap ops (\<lambda>l r. key r < key l) xs) = mset xs \<and>
     is_heap (\<lambda>l r. key r < key l) (make_heap ops (\<lambda>l r. key r < key l) xs))"

text \<open>
  One implementation of the contract, used to run the engines on concrete inputs: a
  sequence sorted by the comparator is a heap, so each operation sorts (by insertion).
\<close>

fun heap_insert :: "(nat \<Rightarrow> nat \<Rightarrow> bool) \<Rightarrow> nat \<Rightarrow> nat list \<Rightarrow> nat list" where
  "heap_insert cmp x [] = [x]"
| "heap_insert cmp x (y # ys) = (if cmp y x then x # y # ys else y # heap_insert cmp x ys)"

definition heap_sort :: "(nat \<Rightarrow> nat \<Rightarrow> bool) \<Rightarrow> nat list \<Rightarrow> nat list" where
  "heap_sort cmp xs = foldr (heap_insert cmp) xs []"

definition sorting_heap :: heap_ops where
  "sorting_heap = \<lparr> push_heap = heap_sort,
                    pop_heap = (\<lambda>cmp xs. heap_sort cmp (tl xs) @ [hd xs]),
                    make_heap = heap_sort \<rparr>"

subsection \<open>pathfinderastargeneric.h: data\<close>

record 'n astarnode =
  m_node :: 'n
  m_parent :: "nat option"
  m_f :: int
  m_g :: int
  m_h :: int

text \<open>\<^verbatim>\<open>astarnodecompare\<close>, reading the nodes behind the two pointers.\<close>

definition astarnodecompare :: "('n, 'z) astarnode_scheme list \<Rightarrow> nat \<Rightarrow> nat \<Rightarrow> bool" where
  "astarnodecompare mem left right = (m_f (mem ! right) < m_f (mem ! left))"

text \<open>\<^verbatim>\<open>listelement\<close>; its constructor gives \<^verbatim>\<open>m_node(NULL), m_onopen(false), m_onclosed(false)\<close>.\<close>

record listelement =
  le_m_node :: "nat option"
  m_onopen :: bool
  m_onclosed :: bool

definition listelement0 :: listelement where
  "listelement0 = \<lparr> le_m_node = None, m_onopen = False, m_onclosed = False \<rparr>"

text \<open>
  The members of \<^verbatim>\<open>AStarGeneric\<close>. \<^verbatim>\<open>m_helperlist\<close> is a \<^verbatim>\<open>std::map\<close> read only through
  \<^verbatim>\<open>operator[]\<close>, which default-constructs a missing element: a total function.
\<close>

record 'n astar =
  store :: "'n astarnode list"
  m_openlist :: "nat list"
  m_closedlist :: "nat list"
  m_helperlist :: "'n \<Rightarrow> listelement"
  m_currentnode :: "nat option"
  m_astaropen :: "nat option"
  m_start :: 'n
  m_goal :: 'n
  m_destinationcost :: "'n \<Rightarrow> 'n \<Rightarrow> int"
  m_getneighbors :: "'n \<Rightarrow> ('n \<times> int) list"

subsection \<open>AStarGeneric::AddNeighbor\<close>

definition AddNeighbor :: "heap_ops \<Rightarrow> 'n astar \<Rightarrow> 'n \<Rightarrow> int \<Rightarrow> 'n astar option" where
  "AddNeighbor ops st neighbor movecost =
     (if m_onclosed (m_helperlist st neighbor) = False then
        (case m_currentnode st of
           None \<Rightarrow> None
         | Some cur \<Rightarrow>
            (case le_m_node (m_helperlist st neighbor) of
               Some a \<Rightarrow>
                 if m_g (store st ! cur) + movecost < m_g (store st ! a) then
                   (let g = m_g (store st ! cur) + movecost;
                        mem' = (store st)[a := (store st ! a)\<lparr> m_g := g, m_f := g + m_h (store st ! a),
                                                         m_parent := Some cur \<rparr>]
                    in Some (st\<lparr> store := mem',
                                 m_openlist := make_heap ops (astarnodecompare mem') (m_openlist st),
                                 m_astaropen := Some a \<rparr>))
                 else Some (st\<lparr> m_astaropen := Some a \<rparr>)
             | None \<Rightarrow>
                 (let newnode = length (store st);
                      g = m_g (store st ! cur) + movecost;
                      h = m_destinationcost st neighbor (m_goal st);
                      mem' = store st @ [\<lparr> m_node = neighbor, m_parent = Some cur,
                                         m_f = g + h, m_g = g, m_h = h \<rparr>]
                  in Some (st\<lparr> store := mem',
                               m_openlist := push_heap ops (astarnodecompare mem')
                                               (m_openlist st @ [newnode]),
                               m_helperlist := (m_helperlist st)
                                  (neighbor := (m_helperlist st neighbor)
                                      \<lparr> m_onopen := True, le_m_node := Some newnode \<rparr>),
                               m_astaropen := None \<rparr>))))
      else Some st)"

text \<open>The calls a \<^verbatim>\<open>getneighbors\<close> functor makes to the \<^verbatim>\<open>AddNeighborFunctor\<close>, in order.\<close>

fun AddNeighbors :: "heap_ops \<Rightarrow> 'n astar \<Rightarrow> ('n \<times> int) list \<Rightarrow> 'n astar option" where
  "AddNeighbors ops st [] = Some st"
| "AddNeighbors ops st ((neighbor, movecost) # ncs) =
     (case AddNeighbor ops st neighbor movecost of
        None \<Rightarrow> None
      | Some st' \<Rightarrow> AddNeighbors ops st' ncs)"

subsection \<open>Path reconstruction\<close>

text \<open>
  The loop \<^verbatim>\<open>while(cnode) { path.push_back(cnode->m_node); cnode=cnode->m_parent; }\<close> of
  \<^verbatim>\<open>FindPath\<close> and \<^verbatim>\<open>GetPath\<close>: it returns the pointer it stopped at and the path.
\<close>

partial_function (option) walk_parents ::
  "('n, 'z) astarnode_scheme list \<Rightarrow> nat option \<Rightarrow> 'n list \<Rightarrow> (nat option \<times> 'n list) option" where
  "walk_parents mem cnode path =
     (case cnode of
        None \<Rightarrow> Some (cnode, path)
      | Some p \<Rightarrow> walk_parents mem (m_parent (mem ! p)) (path @ [m_node (mem ! p)]))"

subsection \<open>AStarGeneric::FindPath\<close>

text \<open>The start node and its registration: lines 311-322, and 383-394 of \<^verbatim>\<open>InitializeStep\<close>.\<close>

partial_function (option) FindPath_loop ::
  "heap_ops \<Rightarrow> 'n \<Rightarrow> ('n \<Rightarrow> ('n \<times> int) list) \<Rightarrow> 'n list \<Rightarrow> 'n astar \<Rightarrow>
     (PathResult \<times> 'n list \<times> 'n astar) option" where
  "FindPath_loop ops goal getneighbors finalpath st =
     (if length (m_openlist st) > 0 then
        (let cur = hd (m_openlist st);
             ol = butlast (pop_heap ops (astarnodecompare (store st)) (m_openlist st));
             n = m_node (store st ! cur);
             hl1 = (m_helperlist st)(n := (m_helperlist st n)\<lparr> m_onopen := False \<rparr>);
             hl2 = hl1(n := (hl1 n)\<lparr> m_onclosed := True \<rparr>);
             st1 = st\<lparr> m_currentnode := Some cur, m_openlist := ol,
                       m_closedlist := m_closedlist st @ [cur], m_helperlist := hl2 \<rparr>
         in if n \<noteq> goal then
              (case AddNeighbors ops st1 (getneighbors n) of
                 None \<Rightarrow> None
               | Some st2 \<Rightarrow> FindPath_loop ops goal getneighbors finalpath st2)
            else
              (case walk_parents (store st1) (m_currentnode st1) [] of
                 None \<Rightarrow> None
               | Some (c, path) \<Rightarrow> Some (PATH_FOUND, path, st1\<lparr> m_currentnode := c \<rparr>)))
      else Some (PATH_NOTFOUND, finalpath, st))"

definition FindPath ::
  "heap_ops \<Rightarrow> 'n astar \<Rightarrow> 'n \<Rightarrow> 'n \<Rightarrow> 'n list \<Rightarrow> ('n \<Rightarrow> 'n \<Rightarrow> int) \<Rightarrow>
     ('n \<Rightarrow> ('n \<times> int) list) \<Rightarrow> (PathResult \<times> 'n list \<times> 'n astar) option" where
  "FindPath ops st start goal finalpath destinationcost getneighbors =
     (let g = destinationcost start goal;
          mem' = [\<lparr> m_node = start, m_parent = None, m_f = g + 0, m_g = g, m_h = 0 \<rparr>];
          newnode = 0;
          hl0 = (\<lambda>_. listelement0);
          hl1 = hl0(start := (hl0 start)\<lparr> le_m_node := Some newnode \<rparr>);
          hl2 = hl1(start := (hl1 start)\<lparr> m_onopen := True \<rparr>)
      in FindPath_loop ops goal getneighbors finalpath
           (st\<lparr> store := mem',
                m_openlist := push_heap ops (astarnodecompare mem') ([] @ [newnode]),
                m_closedlist := [],
                m_helperlist := hl2,
                m_currentnode := None,
                m_astaropen := None,
                m_goal := goal,
                m_destinationcost := destinationcost \<rparr>))"

subsection \<open>AStarGeneric::GetPath, InitializeStep, Step\<close>

definition GetPath :: "'n astar \<Rightarrow> 'n list \<Rightarrow> 'n list option" where
  "GetPath st path = map_option snd (walk_parents (store st) (m_currentnode st) [])"

definition InitializeStep ::
  "heap_ops \<Rightarrow> 'n astar \<Rightarrow> 'n \<Rightarrow> 'n \<Rightarrow> ('n \<Rightarrow> 'n \<Rightarrow> int) \<Rightarrow> ('n \<Rightarrow> ('n \<times> int) list) \<Rightarrow> 'n astar" where
  "InitializeStep ops st start goal destinationcost getneighbors =
     (let g = destinationcost start goal;
          mem' = [\<lparr> m_node = start, m_parent = None, m_f = g + 0, m_g = g, m_h = 0 \<rparr>];
          newnode = 0;
          hl0 = (\<lambda>_. listelement0);
          hl1 = hl0(start := (hl0 start)\<lparr> le_m_node := Some newnode \<rparr>);
          hl2 = hl1(start := (hl1 start)\<lparr> m_onopen := True \<rparr>)
      in st\<lparr> store := mem',
              m_openlist := push_heap ops (astarnodecompare mem') ([] @ [newnode]),
              m_closedlist := [],
              m_helperlist := hl2,
              m_currentnode := None,
              m_astaropen := None,
              m_start := start,
              m_goal := goal,
              m_destinationcost := destinationcost,
              m_getneighbors := getneighbors \<rparr>)"

definition Step :: "heap_ops \<Rightarrow> 'n astar \<Rightarrow> (PathResult \<times> 'n astar) option" where
  "Step ops st =
     (if length (m_openlist st) > 0 then
        (let cur = hd (m_openlist st);
             ol = butlast (pop_heap ops (astarnodecompare (store st)) (m_openlist st));
             n = m_node (store st ! cur);
             hl1 = (m_helperlist st)(n := (m_helperlist st n)\<lparr> m_onopen := False \<rparr>);
             hl2 = hl1(n := (hl1 n)\<lparr> m_onclosed := True \<rparr>);
             st1 = st\<lparr> m_currentnode := Some cur, m_openlist := ol,
                       m_closedlist := m_closedlist st @ [cur], m_helperlist := hl2 \<rparr>
         in if n \<noteq> m_goal st1 then
              (case AddNeighbors ops st1 (m_getneighbors st1 n) of
                 None \<Rightarrow> None
               | Some st2 \<Rightarrow> Some (PATH_SEARCHING, st2))
            else Some (PATH_FOUND, st1))
      else Some (PATH_NOTFOUND, st))"

text \<open>The caller's loop: \<^verbatim>\<open>Step\<close> again while it answers \<^verbatim>\<open>PATH_SEARCHING\<close>.\<close>

partial_function (option) StepLoop :: "heap_ops \<Rightarrow> 'n astar \<Rightarrow> (PathResult \<times> 'n astar) option" where
  "StepLoop ops st =
     (case Step ops st of
        None \<Rightarrow> None
      | Some (r, st') \<Rightarrow> if r = PATH_SEARCHING then StepLoop ops st' else Some (r, st'))"

subsection \<open>Names for parts of the loop body\<close>

text \<open>
  Lines 326-333 of \<^verbatim>\<open>FindPath\<close>, and 403-410 of \<^verbatim>\<open>Step\<close>: the front of the open list
  becomes the current node, leaves the open list and is closed. The properties below are
  stated with this name; \<open>FindPath_loop\<close> and \<open>Step\<close> above write the lines out.
\<close>

definition close_front :: "heap_ops \<Rightarrow> 'n astar \<Rightarrow> 'n astar" where
  "close_front ops st =
     (let cur = hd (m_openlist st);
          n = m_node (store st ! cur)
      in st\<lparr> m_currentnode := Some cur,
              m_openlist := butlast (pop_heap ops (astarnodecompare (store st)) (m_openlist st)),
              m_closedlist := m_closedlist st @ [cur],
              m_helperlist := (m_helperlist st)
                 (n := (m_helperlist st n)\<lparr> m_onopen := False, m_onclosed := True \<rparr>) \<rparr>)"

text \<open>The state that the front of the open list stands for.\<close>

definition front_node :: "'n astar \<Rightarrow> 'n" where
  "front_node st = m_node (store st ! hd (m_openlist st))"

text \<open>What the caller of \<^verbatim>\<open>Step\<close> has in hand when its loop ends: the result code, and
  on \<^verbatim>\<open>PATH_FOUND\<close> the path that \<^verbatim>\<open>GetPath\<close> fills in; otherwise its vector \<open>fp\<close>,
  which no call has touched.\<close>

definition step_outcome ::
  "'n list \<Rightarrow> (PathResult \<times> 'n astar) option \<Rightarrow> (PathResult \<times> 'n list) option" where
  "step_outcome fp r =
     (case r of
        None \<Rightarrow> None
      | Some (c, st') \<Rightarrow>
          if c = PATH_FOUND then map_option (\<lambda>p. (PATH_FOUND, p)) (GetPath st' fp)
          else Some (c, fp))"


declare walk_parents.simps [code]
declare FindPath_loop.simps [code]
declare StepLoop.simps [code]

subsection \<open>pathfinderastargenericcached.h: data\<close>

text \<open>
  \<^verbatim>\<open>long\<close> is modelled by \<open>int\<close> (no overflow of index arithmetic). Where the code
  compares a \<^verbatim>\<open>long\<close> with a \<^verbatim>\<open>size_t\<close> expression, the \<^verbatim>\<open>long\<close> is converted to the
  unsigned type first; the conversion is written out (64-bit \<^verbatim>\<open>size_t\<close>).
\<close>

definition size_t_of :: "int \<Rightarrow> int" where
  "size_t_of x = x mod 2 ^ 64"

record 'n astarnode_c = "'n astarnode" +
  m_index :: int

record 'k cacheelement =
  m_hascache :: bool
  m_neighbors :: "('k \<times> int) list"

definition cacheelement0 :: "'k cacheelement" where
  "cacheelement0 = \<lparr> m_hascache = False, m_neighbors = [] \<rparr>"

text \<open>
  The members of \<^verbatim>\<open>AStarGenericCached\<close> that \<^verbatim>\<open>FindPath\<close>, \<^verbatim>\<open>InitializeStep\<close> and the cache
  operations use.
  \<^verbatim>\<open>m_helperlist\<close> and \<^verbatim>\<open>m_cache\<close> are vectors holding the elements of the indices
  \<open>start index, start index + 1, ...\<close>.
\<close>

record 'n astar_c =
  store_c :: "'n astarnode_c list"
  m_openlist_c :: "nat list"
  m_closedlist_c :: "nat list"
  m_helperlist_c :: "listelement list"
  m_helperliststartindex :: int
  m_currentnode_c :: "nat option"
  m_astaropen_c :: "nat option"
  m_goal_c :: 'n
  m_destinationcost_c :: "'n \<Rightarrow> 'n \<Rightarrow> int"
  m_cache :: "('n \<times> int) cacheelement list"
  m_cachestartindex :: int
  m_start_c :: 'n
  m_getneighbors_c :: "'n \<Rightarrow> ('n \<times> int \<times> int) list"

text \<open>
  The window growth that \<^verbatim>\<open>hl\<close> performs on \<^verbatim>\<open>m_helperlist\<close>, and \<^verbatim>\<open>AddNeighborCached\<close>
  (lines 326-339) on \<^verbatim>\<open>m_cache\<close>: the vector and its start index, made to hold \<open>index\<close>.
\<close>

definition grow_window :: "'a \<Rightarrow> 'a list \<times> int \<Rightarrow> int \<Rightarrow> 'a list \<times> int" where
  "grow_window dflt v index =
     (case v of (vec, startindex) \<Rightarrow>
        if length vec = 0 then ([dflt], index)
        else if index < startindex then
          (replicate (nat (startindex - index)) dflt @ vec, index)
        else if index - startindex \<ge> int (length vec) then
          (vec @ replicate (nat (((index - startindex) + 1) - int (length vec))) dflt, startindex)
        else (vec, startindex))"

text \<open>\<^verbatim>\<open>hl(index)\<close> grows \<^verbatim>\<open>m_helperlist\<close>; the reference it returns is to the element at
  \<open>index - m_helperliststartindex\<close> of the grown vector.\<close>

definition hl :: "'n astar_c \<Rightarrow> int \<Rightarrow> 'n astar_c" where
  "hl st index =
     (let v = grow_window listelement0 (m_helperlist_c st, m_helperliststartindex st) index
      in st\<lparr> m_helperlist_c := fst v, m_helperliststartindex := snd v \<rparr>)"

subsection \<open>AStarGenericCached::AddNeighborCached, ClearCache, ClearCacheIndex\<close>

definition AddNeighborCached ::
  "heap_ops \<Rightarrow> 'n astar_c \<Rightarrow> 'n \<Rightarrow> int \<Rightarrow> int \<Rightarrow> 'n astar_c option" where
  "AddNeighborCached ops st neighbor neighborindex movecost =
     (case m_currentnode_c st of
        None \<Rightarrow> None
      | Some cur \<Rightarrow>
         (let st0 = hl st neighborindex;
              k = nat (neighborindex - m_helperliststartindex st0);
              st1 =
                (if m_onclosed (m_helperlist_c st0 ! k) = False then
                   (case le_m_node (m_helperlist_c st0 ! k) of
                      Some a \<Rightarrow>
                        if m_g (store_c st0 ! cur) + movecost < m_g (store_c st0 ! a) then
                          (let g = m_g (store_c st0 ! cur) + movecost;
                               mem' = (store_c st0)[a := (store_c st0 ! a)
                                         \<lparr> m_g := g, m_f := g + m_h (store_c st0 ! a),
                                           m_parent := Some cur \<rparr>]
                           in st0\<lparr> store_c := mem',
                                    m_openlist_c := make_heap ops (astarnodecompare mem')
                                                      (m_openlist_c st0),
                                    m_astaropen_c := Some a \<rparr>)
                        else st0\<lparr> m_astaropen_c := Some a \<rparr>
                    | None \<Rightarrow>
                        (let newnode = length (store_c st0);
                             g = m_g (store_c st0 ! cur) + movecost;
                             h = m_destinationcost_c st0 neighbor (m_goal_c st0);
                             mem' = store_c st0 @ [\<lparr> m_node = neighbor, m_parent = Some cur,
                                       m_f = g + h, m_g = g, m_h = h, m_index = neighborindex \<rparr>]
                         in st0\<lparr> store_c := mem',
                                  m_openlist_c := push_heap ops (astarnodecompare mem')
                                                    (m_openlist_c st0 @ [newnode]),
                                  m_helperlist_c := (m_helperlist_c st0)[k := (m_helperlist_c st0 ! k)
                                      \<lparr> m_onopen := True, le_m_node := Some newnode \<rparr>],
                                  m_astaropen_c := None \<rparr>))
                 else st0);
              v = grow_window cacheelement0 (m_cache st1, m_cachestartindex st1)
                    (m_index (store_c st1 ! cur));
              j = nat (m_index (store_c st1 ! cur) - snd v)
          in Some (st1\<lparr> m_cache := (fst v)[j := (fst v ! j)
                             \<lparr> m_hascache := True,
                               m_neighbors := m_neighbors (fst v ! j) @
                                                [((neighbor, neighborindex), movecost)] \<rparr>],
                          m_cachestartindex := snd v \<rparr>)))"

fun AddNeighborsCached ::
  "heap_ops \<Rightarrow> 'n astar_c \<Rightarrow> ('n \<times> int \<times> int) list \<Rightarrow> 'n astar_c option" where
  "AddNeighborsCached ops st [] = Some st"
| "AddNeighborsCached ops st ((neighbor, neighborindex, movecost) # nics) =
     (case AddNeighborCached ops st neighbor neighborindex movecost of
        None \<Rightarrow> None
      | Some st' \<Rightarrow> AddNeighborsCached ops st' nics)"

definition ClearCache :: "'n astar_c \<Rightarrow> 'n astar_c" where
  "ClearCache st = st\<lparr> m_cache := [], m_cachestartindex := 0 \<rparr>"


subsection \<open>AStarGenericCached::FindPath\<close>

text \<open>The body of the replay loop over a cache entry, lines 431-466.\<close>

definition ReplayNeighbor ::
  "heap_ops \<Rightarrow> 'n astar_c \<Rightarrow> ('n \<times> int) \<times> int \<Rightarrow> 'n astar_c option" where
  "ReplayNeighbor ops st i =
     (case m_currentnode_c st of
        None \<Rightarrow> None
      | Some cur \<Rightarrow>
         (let st0 = hl st (snd (fst i));
              k = nat (snd (fst i) - m_helperliststartindex st0)
          in if m_onclosed (m_helperlist_c st0 ! k) = False then
               (case le_m_node (m_helperlist_c st0 ! k) of
                  Some a \<Rightarrow>
                    if m_g (store_c st0 ! cur) + snd i < m_g (store_c st0 ! a) then
                      (let g = m_g (store_c st0 ! cur) + snd i;
                           mem' = (store_c st0)[a := (store_c st0 ! a)
                                     \<lparr> m_g := g, m_f := g + m_h (store_c st0 ! a),
                                       m_parent := Some cur \<rparr>]
                       in Some (st0\<lparr> store_c := mem',
                                      m_openlist_c := make_heap ops (astarnodecompare mem')
                                                        (m_openlist_c st0),
                                      m_astaropen_c := Some a \<rparr>))
                    else Some (st0\<lparr> m_astaropen_c := Some a \<rparr>)
                | None \<Rightarrow>
                    (let newnode = length (store_c st0);
                         g = m_g (store_c st0 ! cur) + snd i;
                         h = m_destinationcost_c st0 (fst (fst i)) (m_goal_c st0);
                         mem' = store_c st0 @ [\<lparr> m_node = fst (fst i), m_parent = Some cur,
                                   m_f = g + h, m_g = g, m_h = h, m_index = snd (fst i) \<rparr>];
                         st1 = hl (st0\<lparr> store_c := mem',
                                       m_openlist_c := push_heap ops (astarnodecompare mem')
                                                         (m_openlist_c st0 @ [newnode]),
                                       m_astaropen_c := None \<rparr>) (snd (fst i));
                         k1 = nat (snd (fst i) - m_helperliststartindex st1);
                         st2 = st1\<lparr> m_helperlist_c := (m_helperlist_c st1)
                                   [k1 := (m_helperlist_c st1 ! k1)\<lparr> m_onopen := True \<rparr>] \<rparr>
                     in Some (st2\<lparr> m_helperlist_c := (m_helperlist_c st2)
                                   [k1 := (m_helperlist_c st2 ! k1)\<lparr> le_m_node := Some newnode \<rparr>] \<rparr>)))
             else Some st0))"

fun ReplayNeighbors ::
  "heap_ops \<Rightarrow> 'n astar_c \<Rightarrow> (('n \<times> int) \<times> int) list \<Rightarrow> 'n astar_c option" where
  "ReplayNeighbors ops st [] = Some st"
| "ReplayNeighbors ops st (i # is) =
     (case ReplayNeighbor ops st i of None \<Rightarrow> None | Some st' \<Rightarrow> ReplayNeighbors ops st' is)"

text \<open>The test of line 427: the current node's index has a cache entry.\<close>

definition cache_hit :: "'k cacheelement list \<Rightarrow> int \<Rightarrow> int \<Rightarrow> bool" where
  "cache_hit cache cachestartindex index =
     (index \<ge> cachestartindex \<and>
      size_t_of index < size_t_of (size_t_of cachestartindex + int (length cache)) \<and>
      m_hascache (cache ! nat (index - cachestartindex)))"

text \<open>The expansion of the current node, lines 427-472: from the cache, or live.\<close>

definition Expand_c ::
  "heap_ops \<Rightarrow> ('n \<Rightarrow> ('n \<times> int \<times> int) list) \<Rightarrow> 'n astar_c \<Rightarrow> 'n astar_c option" where
  "Expand_c ops getneighbors st =
     (case m_currentnode_c st of
        None \<Rightarrow> None
      | Some cur \<Rightarrow>
          if cache_hit (m_cache st) (m_cachestartindex st) (m_index (store_c st ! cur)) then
            ReplayNeighbors ops st
              (m_neighbors (m_cache st ! nat (m_index (store_c st ! cur) - m_cachestartindex st)))
          else AddNeighborsCached ops st (getneighbors (m_node (store_c st ! cur))))"

partial_function (option) FindPath_loop_c ::
  "heap_ops \<Rightarrow> 'n \<Rightarrow> ('n \<Rightarrow> ('n \<times> int \<times> int) list) \<Rightarrow> 'n list \<Rightarrow> 'n astar_c \<Rightarrow>
     (PathResult \<times> 'n list \<times> 'n astar_c) option" where
  "FindPath_loop_c ops goal getneighbors finalpath st =
     (if length (m_openlist_c st) > 0 then
        (let cur = hd (m_openlist_c st);
             ol = butlast (pop_heap ops (astarnodecompare (store_c st)) (m_openlist_c st));
             k = nat (m_index (store_c st ! cur) - m_helperliststartindex st);
             hl1 = (m_helperlist_c st)[k := (m_helperlist_c st ! k)\<lparr> m_onopen := False \<rparr>];
             hl2 = hl1[k := (hl1 ! k)\<lparr> m_onclosed := True \<rparr>];
             st1 = st\<lparr> m_currentnode_c := Some cur, m_openlist_c := ol,
                       m_closedlist_c := m_closedlist_c st @ [cur], m_helperlist_c := hl2 \<rparr>
         in if m_node (store_c st ! cur) \<noteq> goal then
              (case Expand_c ops getneighbors st1 of
                 None \<Rightarrow> None
               | Some st2 \<Rightarrow> FindPath_loop_c ops goal getneighbors finalpath st2)
            else
              (case walk_parents (store_c st1) (m_currentnode_c st1) [] of
                 None \<Rightarrow> None
               | Some (c, path) \<Rightarrow> Some (PATH_FOUND, path, st1\<lparr> m_currentnode_c := c \<rparr>)))
      else Some (PATH_NOTFOUND, finalpath, st))"

declare FindPath_loop_c.simps [code]

definition FindPath_c ::
  "heap_ops \<Rightarrow> 'n astar_c \<Rightarrow> 'n \<Rightarrow> int \<Rightarrow> 'n \<Rightarrow> 'n list \<Rightarrow> ('n \<Rightarrow> 'n \<Rightarrow> int) \<Rightarrow>
     ('n \<Rightarrow> ('n \<times> int \<times> int) list) \<Rightarrow> (PathResult \<times> 'n list \<times> 'n astar_c) option" where
  "FindPath_c ops st start startindex goal finalpath destinationcost getneighbors =
     (let g = destinationcost start goal;
          mem' = [\<lparr> m_node = start, m_parent = None, m_f = g + 0, m_g = g, m_h = 0,
                    m_index = startindex \<rparr>];
          newnode = 0;
          st0 = hl (st\<lparr> store_c := mem',
                        m_openlist_c := push_heap ops (astarnodecompare mem') ([] @ [newnode]),
                        m_closedlist_c := [],
                        m_helperlist_c := [],
                        m_helperliststartindex := 0,
                        m_currentnode_c := None,
                        m_astaropen_c := None,
                        m_goal_c := goal,
                        m_destinationcost_c := destinationcost \<rparr>) startindex;
          k = nat (startindex - m_helperliststartindex st0);
          st1 = st0\<lparr> m_helperlist_c := (m_helperlist_c st0)
                         [k := (m_helperlist_c st0 ! k)\<lparr> le_m_node := Some newnode \<rparr>] \<rparr>;
          st2 = st1\<lparr> m_helperlist_c := (m_helperlist_c st1)
                         [k := (m_helperlist_c st1 ! k)\<lparr> m_onopen := True \<rparr>] \<rparr>
      in FindPath_loop_c ops goal getneighbors finalpath st2)"

subsection \<open>AStarGenericCached::InitializeStep\<close>

text \<open>Lines 503-534: the members for \<^verbatim>\<open>Step\<close> are set, the lists are cleared, and the start
  node is created and registered as in \<^verbatim>\<open>FindPath\<close>.\<close>

definition InitializeStep_c ::
  "heap_ops \<Rightarrow> 'n astar_c \<Rightarrow> 'n \<Rightarrow> int \<Rightarrow> 'n \<Rightarrow> ('n \<Rightarrow> 'n \<Rightarrow> int) \<Rightarrow>
     ('n \<Rightarrow> ('n \<times> int \<times> int) list) \<Rightarrow> 'n astar_c" where
  "InitializeStep_c ops st start startindex goal destinationcost getneighbors =
     (let sta = st\<lparr> m_start_c := start,
                     m_goal_c := goal,
                     m_destinationcost_c := destinationcost,
                     m_getneighbors_c := getneighbors \<rparr>;
          stb = sta\<lparr> m_openlist_c := [],
                      m_closedlist_c := [],
                      m_helperlist_c := [],
                      m_helperliststartindex := 0,
                      m_astaropen_c := None,
                      m_currentnode_c := None \<rparr>;
          g = destinationcost start goal;
          mem' = [\<lparr> m_node = start, m_parent = None, m_f = g + 0, m_g = g, m_h = 0,
                    m_index = startindex \<rparr>];
          newnode = 0;
          st0 = hl (stb\<lparr> store_c := mem',
                         m_openlist_c := push_heap ops (astarnodecompare mem')
                                           (m_openlist_c stb @ [newnode]) \<rparr>) startindex;
          k = nat (startindex - m_helperliststartindex st0);
          st1 = st0\<lparr> m_helperlist_c := (m_helperlist_c st0)
                         [k := (m_helperlist_c st0 ! k)\<lparr> le_m_node := Some newnode \<rparr>] \<rparr>
      in st1\<lparr> m_helperlist_c := (m_helperlist_c st1)
                   [k := (m_helperlist_c st1 ! k)\<lparr> m_onopen := True \<rparr>] \<rparr>)"

subsection \<open>pathfinderastartile8dircached.h\<close>

text \<open>
  \<^verbatim>\<open>AStarTile8DirCached\<close>: states are positions \<^verbatim>\<open>std::pair<long,long>\<close> (\<open>first\<close> is x,
  \<open>second\<close> is y), indexed by \<open>y * m_mapwidth + x\<close>; the current node and \<^verbatim>\<open>astaropen\<close>
  are locals of \<^verbatim>\<open>FindPath\<close>. The overload of \<^verbatim>\<open>FindPath\<close> without \<^verbatim>\<open>moveblocked\<close>
  (lines 271-439) is modelled; the other one indexes the vector \<^verbatim>\<open>m_helperlist\<close> with a
  position (lines 467-479) and cannot be instantiated.
\<close>

record astar_t =
  store_t :: "(int \<times> int) astarnode list"
  m_openlist_t :: "nat list"
  m_closedlist_t :: "nat list"
  m_helperlist_t :: "listelement list"
  m_helperliststartindex_t :: int
  m_mapwidth :: int
  m_cache_t :: "(int \<times> int) cacheelement list"
  m_cachestartindex_t :: int

definition tile_index :: "int \<Rightarrow> int \<times> int \<Rightarrow> int" where
  "tile_index mapwidth pos = (snd pos * mapwidth) + fst pos"

definition hl_t :: "astar_t \<Rightarrow> int \<Rightarrow> astar_t" where
  "hl_t st index =
     (let v = grow_window listelement0 (m_helperlist_t st, m_helperliststartindex_t st) index
      in st\<lparr> m_helperlist_t := fst v, m_helperliststartindex_t := snd v \<rparr>)"

definition ClearCache_t :: "astar_t \<Rightarrow> astar_t" where
  "ClearCache_t st = st\<lparr> m_cache_t := [], m_cachestartindex_t := 0 \<rparr>"

definition ClearCachePosition :: "astar_t \<Rightarrow> int \<times> int \<Rightarrow> astar_t" where
  "ClearCachePosition st pos =
     (let index = tile_index (m_mapwidth st) pos
      in if index \<ge> m_cachestartindex_t st \<and>
            index - m_cachestartindex_t st < int (length (m_cache_t st))
         then (let j = nat (index - m_cachestartindex_t st)
               in st\<lparr> m_cache_t := (m_cache_t st)[j := (m_cache_t st ! j)
                                        \<lparr> m_hascache := False, m_neighbors := [] \<rparr>] \<rparr>)
         else st)"

definition SetMapWidth :: "astar_t \<Rightarrow> int \<Rightarrow> astar_t" where
  "SetMapWidth st width =
     (if width \<noteq> m_mapwidth st then ClearCache_t (st\<lparr> m_mapwidth := width \<rparr>) else st)"

text \<open>
  The relaxation of the position \<open>pos = (xx, yy)\<close> from the current node \<open>cur\<close>, entered
  when the position is not closed: lines 324-352, and again 387-415.
\<close>

definition Relax_t ::
  "heap_ops \<Rightarrow> (int \<times> int \<Rightarrow> int \<times> int \<Rightarrow> int) \<Rightarrow> (int \<times> int \<Rightarrow> int \<times> int \<Rightarrow> int) \<Rightarrow>
     int \<times> int \<Rightarrow> nat \<Rightarrow> astar_t \<Rightarrow> int \<times> int \<Rightarrow> astar_t" where
  "Relax_t ops movecost destinationcost goal cur st pos =
     (let k = nat (tile_index (m_mapwidth st) pos - m_helperliststartindex_t st)
      in case le_m_node (m_helperlist_t st ! k) of
           Some a \<Rightarrow>
             if m_g (store_t st ! cur) + movecost (m_node (store_t st ! cur)) pos
                  < m_g (store_t st ! a) then
               (let g = m_g (store_t st ! cur) + movecost (m_node (store_t st ! cur)) pos;
                    mem' = (store_t st)[a := (store_t st ! a)
                              \<lparr> m_g := g, m_f := g + m_h (store_t st ! a), m_parent := Some cur \<rparr>]
                in st\<lparr> store_t := mem',
                        m_openlist_t := make_heap ops (astarnodecompare mem') (m_openlist_t st) \<rparr>)
             else st
         | None \<Rightarrow>
             (let newnode = length (store_t st);
                  g = m_g (store_t st ! cur) + movecost (m_node (store_t st ! cur)) pos;
                  h = destinationcost pos goal;
                  mem' = store_t st @ [\<lparr> m_node = pos, m_parent = Some cur,
                                          m_f = g + h, m_g = g, m_h = h \<rparr>];
                  st1 = hl_t (st\<lparr> store_t := mem',
                                   m_openlist_t := push_heap ops (astarnodecompare mem')
                                                     (m_openlist_t st @ [newnode]) \<rparr>)
                          (tile_index (m_mapwidth st) pos);
                  k1 = nat (tile_index (m_mapwidth st1) pos - m_helperliststartindex_t st1);
                  st2 = st1\<lparr> m_helperlist_t := (m_helperlist_t st1)
                            [k1 := (m_helperlist_t st1 ! k1)\<lparr> m_onopen := True \<rparr>] \<rparr>
              in st2\<lparr> m_helperlist_t := (m_helperlist_t st2)
                            [k1 := (m_helperlist_t st2 ! k1)\<lparr> le_m_node := Some newnode \<rparr>] \<rparr>))"

text \<open>The body of the loop over a cache entry, lines 319-353.\<close>

definition ReplayNeighbor_t ::
  "heap_ops \<Rightarrow> (int \<times> int \<Rightarrow> int \<times> int \<Rightarrow> int) \<Rightarrow> (int \<times> int \<Rightarrow> int \<times> int \<Rightarrow> int) \<Rightarrow>
     int \<times> int \<Rightarrow> nat \<Rightarrow> astar_t \<Rightarrow> (int \<times> int) \<times> int \<Rightarrow> astar_t" where
  "ReplayNeighbor_t ops movecost destinationcost goal cur st i =
     (let xx = fst (fst i);
          yy = snd (fst i);
          st0 = hl_t st (tile_index (m_mapwidth st) (xx, yy))
      in if m_onclosed (m_helperlist_t st0 !
               nat (tile_index (m_mapwidth st0) (xx, yy) - m_helperliststartindex_t st0)) = False
         then Relax_t ops movecost destinationcost goal cur st0 (xx, yy)
         else st0)"

text \<open>
  The body of the loops over the eight surrounding positions, lines 380-420, for the
  current node's index \<open>currentnodeindex\<close>.
\<close>

definition LiveNeighbor_t ::
  "heap_ops \<Rightarrow> (int \<times> int \<Rightarrow> int \<times> int \<Rightarrow> int) \<Rightarrow> (int \<times> int \<Rightarrow> int \<times> int \<Rightarrow> int) \<Rightarrow>
     int \<times> int \<Rightarrow> nat \<Rightarrow> int \<Rightarrow> astar_t \<Rightarrow> int \<times> int \<Rightarrow> astar_t" where
  "LiveNeighbor_t ops movecost destinationcost goal cur currentnodeindex st pos =
     (let st0 = hl_t st (tile_index (m_mapwidth st) pos)
      in if m_onclosed (m_helperlist_t st0 !
               nat (tile_index (m_mapwidth st0) pos - m_helperliststartindex_t st0)) = False
         then
           (let st1 = Relax_t ops movecost destinationcost goal cur st0 pos;
                j = nat (currentnodeindex - m_cachestartindex_t st1)
            in st1\<lparr> m_cache_t := (m_cache_t st1)[j := (m_cache_t st1 ! j)
                        \<lparr> m_neighbors := m_neighbors (m_cache_t st1 ! j) @
                             [(pos, movecost (m_node (store_t st1 ! cur)) pos)] \<rparr>] \<rparr>)
         else st0)"

text \<open>The positions the loops of lines 376-380 visit, in their order.\<close>

definition neighbors8 :: "int \<times> int \<Rightarrow> (int \<times> int) list" where
  "neighbors8 node =
     [(xx, yy). yy \<leftarrow> [snd node - 1 .. snd node + 1], xx \<leftarrow> [fst node - 1 .. fst node + 1],
                xx \<noteq> fst node \<or> yy \<noteq> snd node]"

text \<open>The expansion of the current node, lines 313-423.\<close>

definition Expand_t ::
  "heap_ops \<Rightarrow> (int \<times> int \<Rightarrow> int \<times> int \<Rightarrow> int) \<Rightarrow> (int \<times> int \<Rightarrow> int \<times> int \<Rightarrow> int) \<Rightarrow>
     int \<times> int \<Rightarrow> nat \<Rightarrow> astar_t \<Rightarrow> astar_t" where
  "Expand_t ops movecost destinationcost goal cur st =
     (let currentnodeindex = tile_index (m_mapwidth st) (m_node (store_t st ! cur))
      in if cache_hit (m_cache_t st) (m_cachestartindex_t st) currentnodeindex then
           foldl (ReplayNeighbor_t ops movecost destinationcost goal cur) st
             (m_neighbors (m_cache_t st ! nat (currentnodeindex - m_cachestartindex_t st)))
         else
           (let v = grow_window cacheelement0
                      (m_cache_t st, m_cachestartindex_t st) currentnodeindex;
                j = nat (currentnodeindex - snd v);
                st' = st\<lparr> m_cache_t := (fst v)[j := (fst v ! j)\<lparr> m_hascache := True \<rparr>],
                          m_cachestartindex_t := snd v \<rparr>
            in foldl (LiveNeighbor_t ops movecost destinationcost goal cur currentnodeindex) st'
                 (neighbors8 (m_node (store_t st ! cur)))))"

partial_function (option) FindPath_loop_t ::
  "heap_ops \<Rightarrow> int \<times> int \<Rightarrow> (int \<times> int \<Rightarrow> int \<times> int \<Rightarrow> int) \<Rightarrow>
     (int \<times> int \<Rightarrow> int \<times> int \<Rightarrow> int) \<Rightarrow> (int \<times> int) list \<Rightarrow> astar_t \<Rightarrow>
     (PathResult \<times> (int \<times> int) list \<times> astar_t) option" where
  "FindPath_loop_t ops goal movecost destinationcost finalpath st =
     (if length (m_openlist_t st) > 0 then
        (let currentnode = hd (m_openlist_t st);
             ol = butlast (pop_heap ops (astarnodecompare (store_t st)) (m_openlist_t st));
             k = nat (tile_index (m_mapwidth st) (m_node (store_t st ! currentnode))
                        - m_helperliststartindex_t st);
             hl1 = (m_helperlist_t st)[k := (m_helperlist_t st ! k)\<lparr> m_onopen := False \<rparr>];
             hl2 = hl1[k := (hl1 ! k)\<lparr> m_onclosed := True \<rparr>];
             st1 = st\<lparr> m_openlist_t := ol, m_closedlist_t := m_closedlist_t st @ [currentnode],
                       m_helperlist_t := hl2 \<rparr>
         in if m_node (store_t st ! currentnode) \<noteq> goal then
              FindPath_loop_t ops goal movecost destinationcost finalpath
                (Expand_t ops movecost destinationcost goal currentnode st1)
            else
              (case walk_parents (store_t st1) (Some currentnode) [] of
                 None \<Rightarrow> None
               | Some (c, path) \<Rightarrow> Some (PATH_FOUND, path, st1)))
      else Some (PATH_NOTFOUND, finalpath, st))"

declare FindPath_loop_t.simps [code]

definition FindPath_t ::
  "heap_ops \<Rightarrow> astar_t \<Rightarrow> int \<times> int \<Rightarrow> int \<times> int \<Rightarrow> (int \<times> int) list \<Rightarrow>
     (int \<times> int \<Rightarrow> int \<times> int \<Rightarrow> int) \<Rightarrow> (int \<times> int \<Rightarrow> int \<times> int \<Rightarrow> int) \<Rightarrow>
     (PathResult \<times> (int \<times> int) list \<times> astar_t) option" where
  "FindPath_t ops st start goal finalpath movecost destinationcost =
     (let g = destinationcost start goal;
          mem' = [\<lparr> m_node = start, m_parent = None, m_f = g + 0, m_g = g, m_h = 0 \<rparr>];
          newnode = 0;
          st0 = hl_t (st\<lparr> store_t := mem',
                          m_openlist_t := push_heap ops (astarnodecompare mem') ([] @ [newnode]),
                          m_closedlist_t := [],
                          m_helperlist_t := [],
                          m_helperliststartindex_t := 0 \<rparr>)
                  (tile_index (m_mapwidth st) start);
          k = nat (tile_index (m_mapwidth st0) start - m_helperliststartindex_t st0);
          st1 = st0\<lparr> m_helperlist_t := (m_helperlist_t st0)
                         [k := (m_helperlist_t st0 ! k)\<lparr> le_m_node := Some newnode \<rparr>] \<rparr>;
          st2 = st1\<lparr> m_helperlist_t := (m_helperlist_t st1)
                         [k := (m_helperlist_t st1 ! k)\<lparr> m_onopen := True \<rparr>] \<rparr>
      in FindPath_loop_t ops goal movecost destinationcost finalpath st2)"

text \<open>The engine when \<^verbatim>\<open>FindPath\<close> enters its loop, lines 274-297: the lists cleared,
  the start node created and registered.\<close>

definition FindPath_t_start ::
  "heap_ops \<Rightarrow> astar_t \<Rightarrow> int \<times> int \<Rightarrow> int \<times> int \<Rightarrow> (int \<times> int \<Rightarrow> int \<times> int \<Rightarrow> int) \<Rightarrow>
     astar_t" where
  "FindPath_t_start ops st start goal destinationcost =
     (let g = destinationcost start goal;
          mem' = [\<lparr> m_node = start, m_parent = None, m_f = g + 0, m_g = g, m_h = 0 \<rparr>];
          newnode = 0;
          st0 = hl_t (st\<lparr> store_t := mem',
                          m_openlist_t := push_heap ops (astarnodecompare mem') ([] @ [newnode]),
                          m_closedlist_t := [],
                          m_helperlist_t := [],
                          m_helperliststartindex_t := 0 \<rparr>)
                  (tile_index (m_mapwidth st) start);
          k = nat (tile_index (m_mapwidth st0) start - m_helperliststartindex_t st0);
          st1 = st0\<lparr> m_helperlist_t := (m_helperlist_t st0)
                         [k := (m_helperlist_t st0 ! k)\<lparr> le_m_node := Some newnode \<rparr>] \<rparr>
      in st1\<lparr> m_helperlist_t := (m_helperlist_t st1)
                   [k := (m_helperlist_t st1 ! k)\<lparr> m_onopen := True \<rparr>] \<rparr>)"

subsection \<open>Concrete inputs\<close>

text \<open>A search state of \<^verbatim>\<open>AStarGeneric\<close> with the states 0 and 2 closed, state 1 open with
  \<open>g = 5\<close>, and the node of state 2 (with \<open>g = 1\<close>) current.\<close>

definition relax_state :: "nat astar" where
  "relax_state =
     \<lparr> store = [\<lparr> m_node = 0, m_parent = None, m_f = 0, m_g = 0, m_h = 0 \<rparr>,
                \<lparr> m_node = 1, m_parent = Some 0, m_f = 7, m_g = 5, m_h = 2 \<rparr>,
                \<lparr> m_node = 2, m_parent = Some 0, m_f = 1, m_g = 1, m_h = 0 \<rparr>],
       m_openlist = [1], m_closedlist = [0, 2],
       m_helperlist = (\<lambda>n. if n = 0 then \<lparr> le_m_node = Some 0, m_onopen = False, m_onclosed = True \<rparr>
                           else if n = 1 then \<lparr> le_m_node = Some 1, m_onopen = True, m_onclosed = False \<rparr>
                           else if n = 2 then \<lparr> le_m_node = Some 2, m_onopen = False, m_onclosed = True \<rparr>
                           else listelement0),
       m_currentnode = Some 2, m_astaropen = None, m_start = 0, m_goal = 3,
       m_destinationcost = (\<lambda>_ _. 0), m_getneighbors = (\<lambda>_. []) \<rparr>"


text \<open>
  A fresh \<^verbatim>\<open>AStarTile8DirCached\<close> after \<^verbatim>\<open>SetMapWidth(10)\<close>, and a move cost that is 100
  except on five moves between the positions (0,0), (1,0), (2,0) and (0,1).
\<close>

definition tile0 :: astar_t where
  "tile0 = \<lparr> store_t = [], m_openlist_t = [], m_closedlist_t = [], m_helperlist_t = [],
               m_helperliststartindex_t = 0, m_mapwidth = 10, m_cache_t = [],
               m_cachestartindex_t = 0 \<rparr>"

definition tile_cost :: "int \<times> int \<Rightarrow> int \<times> int \<Rightarrow> int" where
  "tile_cost a b =
     (if a = (0, 0) \<and> b = (1, 0) then 1
      else if a = (1, 0) \<and> b = (2, 0) then 2
      else if a = (1, 0) \<and> b = (0, 1) then 3
      else if a = (0, 1) \<and> b = (0, 0) then 1
      else if a = (1, 0) \<and> b = (0, 0) then 1
      else 100)"

text \<open>The engine after a first search, from (0,0) to (2,0), has filled its cache.\<close>

definition tile_warm :: astar_t where
  "tile_warm =
     (case FindPath_t sorting_heap tile0 (0, 0) (2, 0) [] tile_cost (\<lambda>_ _. 0) of
        Some (r, p, st) \<Rightarrow> st
      | None \<Rightarrow> tile0)"

text \<open>The result code and the path of a \<^verbatim>\<open>FindPath\<close> call, without the engine's state.\<close>

definition outcome :: "(PathResult \<times> 'p list \<times> 's) option \<Rightarrow> (PathResult \<times> 'p list) option" where
  "outcome r = map_option (\<lambda>x. (fst x, fst (snd x))) r"

text \<open>
  Engines as their constructors leave them (pointer members that a constructor leaves
  unset are given a value that no function reads before writing it), and the line graph
  A - B - C over the states 0, 1, 2 with unit costs; state indices are the states.
\<close>

definition astar0 :: "nat astar" where
  "astar0 = \<lparr> store = [], m_openlist = [], m_closedlist = [], m_helperlist = (\<lambda>_. listelement0),
                m_currentnode = None, m_astaropen = None, m_start = 0, m_goal = 0,
                m_destinationcost = (\<lambda>_ _. 0), m_getneighbors = (\<lambda>_. []) \<rparr>"

definition astar_c0 :: "nat astar_c" where
  "astar_c0 = \<lparr> store_c = [], m_openlist_c = [], m_closedlist_c = [], m_helperlist_c = [],
                  m_helperliststartindex = 0, m_currentnode_c = None, m_astaropen_c = None,
                  m_goal_c = 0, m_destinationcost_c = (\<lambda>_ _. 0), m_cache = [],
                  m_cachestartindex = 0, m_start_c = 0, m_getneighbors_c = (\<lambda>_. []) \<rparr>"

definition line_nb :: "nat \<Rightarrow> (nat \<times> int) list" where
  "line_nb n = (if n = 0 then [(1, 1)] else if n = 1 then [(0, 1), (2, 1)]
                else if n = 2 then [(1, 1)] else [])"

definition line_nb_c :: "nat \<Rightarrow> (nat \<times> int \<times> int) list" where
  "line_nb_c n = map (\<lambda>(n', c). (n', int n', c)) (line_nb n)"

text \<open>Estimates that are not symmetric in their arguments, and not zero from a state to
  itself.\<close>

definition skew_cost :: "nat \<Rightarrow> nat \<Rightarrow> int" where
  "skew_cost a b = 1 + int a + 10 * int b"

definition skew_cost_t :: "int \<times> int \<Rightarrow> int \<times> int \<Rightarrow> int" where
  "skew_cost_t a b = 1 + fst a + 10 * fst b"

subsection \<open>Graphs, paths and heuristics\<close>

text \<open>
  The search space a \<^verbatim>\<open>getneighbors\<close> functor describes: an edge leads from \<open>u\<close> to \<open>v\<close> at
  cost \<open>c\<close> when \<open>(v, c)\<close> is among the neighbours reported for \<open>u\<close>. A path is given by
  the edges it takes.
\<close>

fun is_path :: "('n \<Rightarrow> ('n \<times> int) list) \<Rightarrow> 'n \<Rightarrow> ('n \<times> int) list \<Rightarrow> 'n \<Rightarrow> bool" where
  "is_path nb u [] v = (u = v)"
| "is_path nb u ((w, c) # es) v = ((w, c) \<in> set (nb u) \<and> is_path nb w es v)"

definition path_cost :: "('n \<times> int) list \<Rightarrow> int" where
  "path_cost es = sum_list (map snd es)"

definition reachable :: "('n \<Rightarrow> ('n \<times> int) list) \<Rightarrow> 'n \<Rightarrow> 'n \<Rightarrow> bool" where
  "reachable nb u v = (\<exists>es. is_path nb u es v)"

text \<open>A finite graph: a finite set of states that holds every neighbour of its members.\<close>

definition graph_in :: "('n \<Rightarrow> ('n \<times> int) list) \<Rightarrow> 'n set \<Rightarrow> bool" where
  "graph_in nb V = (finite V \<and> (\<forall>u \<in> V. \<forall>vc \<in> set (nb u). fst vc \<in> V))"

definition nonneg_costs :: "('n \<Rightarrow> ('n \<times> int) list) \<Rightarrow> bool" where
  "nonneg_costs nb = (\<forall>u. \<forall>vc \<in> set (nb u). 0 \<le> snd vc)"

text \<open>An admissible heuristic never exceeds the cost of a path to the goal; a consistent
  one obeys the triangle inequality on every edge.\<close>

definition admissible :: "('n \<Rightarrow> 'n \<Rightarrow> int) \<Rightarrow> ('n \<Rightarrow> ('n \<times> int) list) \<Rightarrow> 'n \<Rightarrow> bool" where
  "admissible dc nb goal = (\<forall>u es. is_path nb u es goal \<longrightarrow> dc u goal \<le> path_cost es)"

definition consistent :: "('n \<Rightarrow> 'n \<Rightarrow> int) \<Rightarrow> ('n \<Rightarrow> ('n \<times> int) list) \<Rightarrow> 'n \<Rightarrow> bool" where
  "consistent dc nb goal = (\<forall>u. \<forall>vc \<in> set (nb u). dc u goal \<le> snd vc + dc (fst vc) goal)"

text \<open>
  A vector of states in goal-to-start order traces a path of the graph (along some edges
  \<open>es\<close>), and traces a shortest one when no path from start to goal costs less.
\<close>

definition traces_path ::
  "('n \<Rightarrow> ('n \<times> int) list) \<Rightarrow> 'n \<Rightarrow> 'n \<Rightarrow> 'n list \<Rightarrow> ('n \<times> int) list \<Rightarrow> bool" where
  "traces_path nb start goal finalpath es =
     (is_path nb start es goal \<and> rev finalpath = start # map fst es)"

definition traces_shortest ::
  "('n \<Rightarrow> ('n \<times> int) list) \<Rightarrow> 'n \<Rightarrow> 'n \<Rightarrow> 'n list \<Rightarrow> bool" where
  "traces_shortest nb start goal finalpath =
     (\<exists>es. traces_path nb start goal finalpath es \<and>
           (\<forall>es'. is_path nb start es' goal \<longrightarrow> path_cost es \<le> path_cost es'))"

subsection \<open>The bookkeeping of a search\<close>

text \<open>The node that \<^verbatim>\<open>m_helperlist\<close> holds for a state, if it has been discovered.\<close>

definition node_of :: "'n astar \<Rightarrow> 'n \<Rightarrow> nat option" where
  "node_of st n = le_m_node (m_helperlist st n)"

definition precedes :: "'a list \<Rightarrow> 'a \<Rightarrow> 'a \<Rightarrow> bool" where
  "precedes xs a b = (\<exists>i j. i < j \<and> j < length xs \<and> xs ! i = a \<and> xs ! j = b)"

text \<open>
  The three conditions of a state: undiscovered (no node, no flag), open (its node is on
  the open list only, \<^verbatim>\<open>m_onopen\<close> only), closed (its node is on the closed list only,
  \<^verbatim>\<open>m_onclosed\<close> only).
\<close>

definition undiscovered :: "'n astar \<Rightarrow> 'n \<Rightarrow> bool" where
  "undiscovered st n =
     (node_of st n = None \<and> \<not> m_onopen (m_helperlist st n) \<and> \<not> m_onclosed (m_helperlist st n) \<and>
      n \<notin> m_node ` set (store st))"

definition is_open :: "'n astar \<Rightarrow> 'n \<Rightarrow> bool" where
  "is_open st n =
     (\<exists>p. node_of st n = Some p \<and> p \<in> set (m_openlist st) \<and> p \<notin> set (m_closedlist st) \<and>
          m_onopen (m_helperlist st n) \<and> \<not> m_onclosed (m_helperlist st n))"

definition is_closed :: "'n astar \<Rightarrow> 'n \<Rightarrow> bool" where
  "is_closed st n =
     (\<exists>p. node_of st n = Some p \<and> p \<in> set (m_closedlist st) \<and> p \<notin> set (m_openlist st) \<and>
          \<not> m_onopen (m_helperlist st n) \<and> m_onclosed (m_helperlist st n))"

text \<open>
  The invariant of the bookkeeping: every state has at most one node and the helper list
  points to it; the open and the closed list share no node and hold every node between
  them; the flags say which list a state's node is on; \<open>f = g + h\<close>; the open list is a
  heap; a parent pointer leads to a node closed earlier; the current node is closed.
\<close>

definition wf_nodes :: "'n astar \<Rightarrow> bool" where
  "wf_nodes st =
     ((\<forall>n p. node_of st n = Some p \<longrightarrow> p < length (store st) \<and> m_node (store st ! p) = n) \<and>
      (\<forall>p < length (store st). node_of st (m_node (store st ! p)) = Some p))"

definition wf_lists :: "'n astar \<Rightarrow> bool" where
  "wf_lists st =
     (distinct (m_openlist st @ m_closedlist st) \<and>
      set (m_openlist st) \<union> set (m_closedlist st) = {..<length (store st)})"

definition wf_flags :: "'n astar \<Rightarrow> bool" where
  "wf_flags st =
     (\<forall>n. m_onopen (m_helperlist st n) = (\<exists>p \<in> set (m_openlist st). m_node (store st ! p) = n) \<and>
          m_onclosed (m_helperlist st n) = (\<exists>p \<in> set (m_closedlist st). m_node (store st ! p) = n))"

definition wf_costs :: "'n astar \<Rightarrow> bool" where
  "wf_costs st =
     ((\<forall>p < length (store st). m_f (store st ! p) = m_g (store st ! p) + m_h (store st ! p)) \<and>
      is_heap (astarnodecompare (store st)) (m_openlist st))"

definition wf_parents :: "'n astar \<Rightarrow> bool" where
  "wf_parents st =
     ((\<forall>p < length (store st). \<forall>q. m_parent (store st ! p) = Some q \<longrightarrow>
          q \<in> set (m_closedlist st) \<and>
          (p \<in> set (m_closedlist st) \<longrightarrow> precedes (m_closedlist st) q p)) \<and>
      (\<forall>c. m_currentnode st = Some c \<longrightarrow> c \<in> set (m_closedlist st)))"

definition wf_search :: "'n astar \<Rightarrow> bool" where
  "wf_search st = (wf_nodes st \<and> wf_lists st \<and> wf_flags st \<and> wf_costs st \<and> wf_parents st)"

text \<open>
  The states a search passes through, between the calls the engine makes: the state that
  \<^verbatim>\<open>FindPath\<close> or \<^verbatim>\<open>InitializeStep\<close> sets up, then any number of extractions of the front
  node and of \<^verbatim>\<open>AddNeighbor\<close> calls, with whatever arguments the functor passes.
\<close>

inductive searching :: "heap_ops \<Rightarrow> 'n astar \<Rightarrow> bool" for ops :: heap_ops where
  start: "searching ops
            ((InitializeStep ops st start goal destinationcost getneighbors)
               \<lparr> m_start := s, m_getneighbors := nb \<rparr>)"
| close: "searching ops st \<Longrightarrow> m_openlist st \<noteq> [] \<Longrightarrow> searching ops (close_front ops st)"
| relax: "searching ops st \<Longrightarrow> AddNeighbor ops st neighbor movecost = Some st' \<Longrightarrow>
          searching ops st'"

text \<open>The states that follow a state \<open>st\<close> in a search.\<close>

inductive search_steps :: "heap_ops \<Rightarrow> 'n astar \<Rightarrow> 'n astar \<Rightarrow> bool"
  for ops :: heap_ops and st :: "'n astar" where
  here: "search_steps ops st st"
| close: "search_steps ops st st1 \<Longrightarrow> m_openlist st1 \<noteq> [] \<Longrightarrow>
          search_steps ops st (close_front ops st1)"
| relax: "search_steps ops st st1 \<Longrightarrow> AddNeighbor ops st1 neighbor movecost = Some st2 \<Longrightarrow>
          search_steps ops st st2"

text \<open>Between a state and a later one: the closed list only grows, its nodes keep their
  contents, and a state keeps the node it has.\<close>

definition keeps_closed :: "'n astar \<Rightarrow> 'n astar \<Rightarrow> bool" where
  "keeps_closed st st' =
     ((\<forall>q \<in> set (m_closedlist st). q \<in> set (m_closedlist st') \<and> store st' ! q = store st ! q) \<and>
      (\<forall>n p. node_of st n = Some p \<longrightarrow> node_of st' n = Some p))"

text \<open>The line graph's search from 0 to 2 after its first extraction: state 0 is closed.\<close>

definition line_closed :: "nat astar" where
  "line_closed = close_front sorting_heap
     ((InitializeStep sorting_heap astar0 0 2 (\<lambda>_ _. 0) line_nb)
        \<lparr> m_start := 0, m_getneighbors := line_nb \<rparr>)"

subsection \<open>Expansions and the search tree\<close>

text \<open>
  What the calls \<^verbatim>\<open>AddNeighbor\<close> of one expansion, with current node \<open>cur\<close> and the
  neighbours \<open>ncs\<close>, do to the engine: nodes on the closed list stay as they are, a
  node that changes gets \<open>cur\<close> as parent and the cost of an edge of \<open>ncs\<close> on top of
  \<open>cur\<close>'s, no \<open>g\<close> grows, and every neighbour has a node afterwards.
\<close>

definition relaxed :: "nat \<Rightarrow> ('n \<times> int) list \<Rightarrow> 'n astar \<Rightarrow> 'n astar \<Rightarrow> bool" where
  "relaxed cur ncs st st' =
     (m_closedlist st' = m_closedlist st \<and> m_currentnode st' = m_currentnode st \<and>
      m_goal st' = m_goal st \<and> m_destinationcost st' = m_destinationcost st \<and>
      length (store st) \<le> length (store st') \<and>
      (\<forall>p < length (store st).
         m_node (store st' ! p) = m_node (store st ! p) \<and>
         m_h (store st' ! p) = m_h (store st ! p) \<and>
         m_g (store st' ! p) \<le> m_g (store st ! p) \<and>
         (store st' ! p = store st ! p \<or>
          p \<notin> set (m_closedlist st) \<and> m_parent (store st' ! p) = Some cur \<and>
          (m_node (store st ! p), m_g (store st' ! p) - m_g (store st ! cur)) \<in> set ncs)) \<and>
      (\<forall>p < length (store st'). length (store st) \<le> p \<longrightarrow>
         m_parent (store st' ! p) = Some cur \<and>
         (m_node (store st' ! p), m_g (store st' ! p) - m_g (store st ! cur)) \<in> set ncs \<and>
         m_h (store st' ! p) = m_destinationcost st (m_node (store st' ! p)) (m_goal st)) \<and>
      (\<forall>n p. node_of st n = Some p \<longrightarrow> node_of st' n = Some p) \<and>
      (\<forall>vc \<in> set ncs. \<exists>p < length (store st'). node_of st' (fst vc) = Some p \<and>
           (p \<notin> set (m_closedlist st) \<longrightarrow>
              m_g (store st' ! p) \<le> m_g (store st ! cur) + snd vc)))"

text \<open>
  The search tree in the store: node 0 stands for the start, has no parent and carries the
  estimate from start to goal as \<open>g\<close>; every other node has a parent, the difference of
  their \<open>g\<close> is the cost of an edge from the parent's state to the node's state, and its
  \<open>h\<close> is the estimate to the goal. Node 0 is the first node closed.
\<close>

definition wf_graph ::
  "('n \<Rightarrow> ('n \<times> int) list) \<Rightarrow> ('n \<Rightarrow> 'n \<Rightarrow> int) \<Rightarrow> 'n \<Rightarrow> 'n \<Rightarrow> 'n astar \<Rightarrow> bool" where
  "wf_graph nb dc start goal st =
     (m_goal st = goal \<and> m_destinationcost st = dc \<and>
      0 < length (store st) \<and>
      m_node (store st ! 0) = start \<and> m_parent (store st ! 0) = None \<and>
      m_g (store st ! 0) = dc start goal \<and> m_h (store st ! 0) = 0 \<and>
      (\<forall>p < length (store st). 0 < p \<longrightarrow>
         m_h (store st ! p) = dc (m_node (store st ! p)) goal \<and>
         (\<exists>q. m_parent (store st ! p) = Some q \<and>
              (m_node (store st ! p), m_g (store st ! p) - m_g (store st ! q))
                 \<in> set (nb (m_node (store st ! q))))) \<and>
      (0 \<in> set (m_closedlist st) \<or> m_closedlist st = [] \<and> length (store st) = 1))"

text \<open>A list of nodes in which each one is followed by its parent, down to a node that
  has none.\<close>

fun parent_chain :: "('n, 'z) astarnode_scheme list \<Rightarrow> nat list \<Rightarrow> bool" where
  "parent_chain mem [] = False"
| "parent_chain mem [p] = (m_parent (mem ! p) = None)"
| "parent_chain mem (p # q # ps) = (m_parent (mem ! p) = Some q \<and> parent_chain mem (q # ps))"

text \<open>
  A path in goal-to-start order: its first state is the goal, its last the start, it is
  the states of a node, the node's parent, that one's parent and so on to a node without
  parent, and read backwards it follows edges of the graph from start to goal.
\<close>

definition goal_to_start ::
  "('n \<Rightarrow> ('n \<times> int) list) \<Rightarrow> 'n \<Rightarrow> 'n \<Rightarrow> ('n, 'z) astarnode_scheme list \<Rightarrow> 'n list \<Rightarrow> bool" where
  "goal_to_start nb start goal mem path =
     (path \<noteq> [] \<and> hd path = goal \<and> last path = start \<and>
      (\<exists>ps. parent_chain mem ps \<and> path = map (\<lambda>p. m_node (mem ! p)) ps) \<and>
      (\<exists>es. traces_path nb start goal path es))"

subsection \<open>Cache entries\<close>







section \<open>Properties\<close>

subsection \<open>The sorting heap satisfies the contract\<close>

lemma mset_heap_insert: "mset (heap_insert cmp x ys) = add_mset x (mset ys)"
  by (induction ys) auto

lemma mset_heap_sort: "mset (heap_sort cmp xs) = mset xs"
  unfolding heap_sort_def by (induction xs) (auto simp: mset_heap_insert)

lemma set_heap_insert: "set (heap_insert cmp x ys) = insert x (set ys)"
  by (induction ys) auto

lemma sorted_heap_insert:
  fixes key :: "nat \<Rightarrow> int"
  shows "sorted_wrt (\<lambda>a b. key a \<le> key b) ys \<Longrightarrow>
         sorted_wrt (\<lambda>a b. key a \<le> key b) (heap_insert (\<lambda>l r. key r < key l) x ys)"
  by (induction ys) (auto simp: set_heap_insert)

lemma sorted_heap_sort:
  fixes key :: "nat \<Rightarrow> int"
  shows "sorted_wrt (\<lambda>a b. key a \<le> key b) (heap_sort (\<lambda>l r. key r < key l) xs)"
  unfolding heap_sort_def by (induction xs) (auto intro: sorted_heap_insert)

lemma sorted_is_heap:
  fixes key :: "nat \<Rightarrow> int"
  assumes "sorted_wrt (\<lambda>a b. key a \<le> key b) xs"
  shows "is_heap (\<lambda>l r. key r < key l) xs"
  unfolding is_heap_def
proof
  fix i assume i: "i \<in> {1..<length xs}"
  then have "(i - 1) div 2 < i" "i < length xs" by auto
  with assms have "key (xs ! ((i - 1) div 2)) \<le> key (xs ! i)"
    by (simp add: sorted_wrt_iff_nth_less)
  then show "\<not> key (xs ! i) < key (xs ! ((i - 1) div 2))" by simp
qed

lemma mset_hd_tl: "xs \<noteq> [] \<Longrightarrow> add_mset (hd xs) (mset (tl xs)) = mset xs"
  by (cases xs) auto

lemma std_heap_sorting_heap: "std_heap sorting_heap"
  unfolding std_heap_def sorting_heap_def
  by (auto simp: mset_heap_sort sorted_is_heap sorted_heap_sort mset_hd_tl)

subsection \<open>The contract, at the engines' comparator\<close>

lemma astarnodecompare_key:
  "astarnodecompare mem = (\<lambda>l r. m_f (mem ! r) < m_f (mem ! l))"
  by (intro ext) (simp add: astarnodecompare_def)

lemma std_heap_key:
  fixes key :: "nat \<Rightarrow> int"
  assumes "std_heap ops"
  shows "(xs \<noteq> [] \<and> is_heap (\<lambda>l r. key r < key l) (butlast xs) \<longrightarrow>
        mset (push_heap ops (\<lambda>l r. key r < key l) xs) = mset xs \<and>
        is_heap (\<lambda>l r. key r < key l) (push_heap ops (\<lambda>l r. key r < key l) xs)) \<and>
     (xs \<noteq> [] \<and> is_heap (\<lambda>l r. key r < key l) xs \<longrightarrow>
        mset (pop_heap ops (\<lambda>l r. key r < key l) xs) = mset xs \<and>
        last (pop_heap ops (\<lambda>l r. key r < key l) xs) = hd xs \<and>
        is_heap (\<lambda>l r. key r < key l) (butlast (pop_heap ops (\<lambda>l r. key r < key l) xs))) \<and>
     mset (make_heap ops (\<lambda>l r. key r < key l) xs) = mset xs \<and>
     is_heap (\<lambda>l r. key r < key l) (make_heap ops (\<lambda>l r. key r < key l) xs)"
  using assms unfolding std_heap_def by (elim allE [of _ key] allE [of _ xs])

lemma std_push_heap:
  assumes "std_heap ops" "xs \<noteq> []" "is_heap (astarnodecompare mem) (butlast xs)"
  shows "mset (push_heap ops (astarnodecompare mem) xs) = mset xs"
    and "is_heap (astarnodecompare mem) (push_heap ops (astarnodecompare mem) xs)"
  using std_heap_key [OF assms(1), of xs "\<lambda>p. m_f (mem ! p)"] assms(2,3)
  unfolding astarnodecompare_key by simp_all

lemma std_pop_heap:
  assumes "std_heap ops" "xs \<noteq> []" "is_heap (astarnodecompare mem) xs"
  shows "mset (pop_heap ops (astarnodecompare mem) xs) = mset xs"
    and "last (pop_heap ops (astarnodecompare mem) xs) = hd xs"
    and "is_heap (astarnodecompare mem) (butlast (pop_heap ops (astarnodecompare mem) xs))"
  using std_heap_key [OF assms(1), of xs "\<lambda>p. m_f (mem ! p)"] assms(2,3)
  unfolding astarnodecompare_key by simp_all

lemma std_make_heap:
  assumes "std_heap ops"
  shows "mset (make_heap ops (astarnodecompare mem) xs) = mset xs"
    and "is_heap (astarnodecompare mem) (make_heap ops (astarnodecompare mem) xs)"
  using std_heap_key [OF assms(1), of xs "\<lambda>p. m_f (mem ! p)"]
  unfolding astarnodecompare_key by simp_all

text \<open>The front of a heap has the least \<open>m_f\<close>.\<close>

lemma is_heap_nth_ge:
  assumes "is_heap (astarnodecompare mem) xs" "i < length xs"
  shows "m_f (mem ! (xs ! 0)) \<le> m_f (mem ! (xs ! i))"
  using assms(2)
proof (induction i rule: less_induct)
  case (less i)
  show ?case
  proof (cases "i = 0")
    case True
    then show ?thesis by simp
  next
    case False
    with less.prems have "i \<in> {1..<length xs}" by simp
    with assms(1) have "\<not> astarnodecompare mem (xs ! ((i - 1) div 2)) (xs ! i)"
      unfolding is_heap_def by blast
    then have "m_f (mem ! (xs ! ((i - 1) div 2))) \<le> m_f (mem ! (xs ! i))"
      by (simp add: astarnodecompare_def)
    moreover have "(i - 1) div 2 < i" using False by simp
    then have "m_f (mem ! (xs ! 0)) \<le> m_f (mem ! (xs ! ((i - 1) div 2)))"
      using less.IH less.prems by simp
    ultimately show ?thesis by simp
  qed
qed

lemma is_heap_hd_least:
  assumes "is_heap (astarnodecompare mem) xs" "p \<in> set xs"
  shows "m_f (mem ! hd xs) \<le> m_f (mem ! p)"
proof -
  from assms(2) obtain i where "i < length xs" "xs ! i = p" by (auto simp: in_set_conv_nth)
  moreover from assms(2) have "hd xs = xs ! 0" by (cases xs) auto
  ultimately show ?thesis using is_heap_nth_ge [OF assms(1)] by metis
qed

subsection \<open>Relaxing a neighbour that is on the open list\<close>

text \<open>
  Claim C7. When \<^verbatim>\<open>AddNeighbor\<close> is called for a neighbour that is not closed and has a
  node \<open>a\<close> on the open list, then: if \<open>current.g + movecost\<close> is strictly less than the
  stored \<open>g\<close> of \<open>a\<close>, the node's \<open>g\<close>, \<open>f = g + h\<close> and parent are updated in place (no
  other node changes) and the open list is rebuilt with \<^verbatim>\<open>make_heap\<close>; otherwise the store
  and the open list are left exactly as they were.
\<close>

theorem AddNeighbor_open_relax:
  assumes "m_currentnode st = Some cur"
    and "m_onclosed (m_helperlist st neighbor) = False"
    and "le_m_node (m_helperlist st neighbor) = Some a"
    and "a < length (store st)"
  shows "\<exists>st'. AddNeighbor ops st neighbor movecost = Some st' \<and>
     (if m_g (store st ! cur) + movecost < m_g (store st ! a)
      then m_g (store st' ! a) = m_g (store st ! cur) + movecost \<and>
           m_f (store st' ! a) = m_g (store st ! cur) + movecost + m_h (store st ! a) \<and>
           m_parent (store st' ! a) = Some cur \<and>
           m_h (store st' ! a) = m_h (store st ! a) \<and>
           m_node (store st' ! a) = m_node (store st ! a) \<and>
           store st' = (store st)[a := store st' ! a] \<and>
           m_openlist st' = make_heap ops (astarnodecompare (store st')) (m_openlist st)
      else store st' = store st \<and> m_openlist st' = m_openlist st)"
  using assms by (simp add: AddNeighbor_def Let_def)



theorem AddNeighbor_open_relax_witness:
  "(\<exists>st'. AddNeighbor sorting_heap relax_state 1 3 = Some st' \<and>
       m_g (store st' ! 1) = 4 \<and> m_f (store st' ! 1) = 6 \<and> m_parent (store st' ! 1) = Some 2) \<and>
   (\<exists>st'. AddNeighbor sorting_heap relax_state 1 4 = Some st' \<and>
       store st' = store relax_state \<and> m_openlist st' = m_openlist relax_state)"
  using AddNeighbor_open_relax [of relax_state 2 1 1 sorting_heap 3]
        AddNeighbor_open_relax [of relax_state 2 1 1 sorting_heap 4]
  by (auto simp: relax_state_def)

subsection \<open>The cache of the tile engine depends on the search that filled it\<close>

text \<open>
  Claim C2 (the code departs from it in \<^verbatim>\<open>AStarTile8DirCached\<close>). A first search from
  (0,0) to (2,0) expands (1,0) while (0,0) is closed, and \<^verbatim>\<open>FindPath\<close> records a neighbour
  only inside the test that it is not closed (line 417 within the \<^verbatim>\<open>if\<close> of line 384): the
  cache entry of (1,0) lacks (0,0). A second search from (1,0) to (0,0), with the same
  move costs, then returns the path over (0,1) from the warm cache, and the direct path
  after \<^verbatim>\<open>ClearCache()\<close>. At each extraction of these three searches the least \<open>f\<close> on
  the open list is unique, so the outcome is the same for every heap implementation.
\<close>

theorem tile_cache_not_transparent:
  "outcome (FindPath_t sorting_heap tile0 (0, 0) (2, 0) [] tile_cost (\<lambda>_ _. 0))
     = Some (PATH_FOUND, [(2, 0), (1, 0), (0, 0)]) \<and>
   m_cachestartindex_t tile_warm = 0 \<and>
   m_cache_t tile_warm =
     [\<lparr> m_hascache = True,
         m_neighbors = [((- 1, - 1), 100), ((0, - 1), 100), ((1, - 1), 100), ((- 1, 0), 100),
                        ((1, 0), 1), ((- 1, 1), 100), ((0, 1), 100), ((1, 1), 100)] \<rparr>,
      \<lparr> m_hascache = True,
         m_neighbors = [((0, - 1), 100), ((1, - 1), 100), ((2, - 1), 100), ((2, 0), 2),
                        ((0, 1), 3), ((1, 1), 100), ((2, 1), 100)] \<rparr>] \<and>
   outcome (FindPath_t sorting_heap tile_warm (1, 0) (0, 0) [] tile_cost (\<lambda>_ _. 0))
     = Some (PATH_FOUND, [(0, 0), (0, 1), (1, 0)]) \<and>
   outcome (FindPath_t sorting_heap (ClearCache_t tile_warm) (1, 0) (0, 0) [] tile_cost (\<lambda>_ _. 0))
     = Some (PATH_FOUND, [(0, 0), (1, 0)])"
  by code_simp

subsection \<open>The loops, unfolded once\<close>

lemma walk_parents_None: "walk_parents mem None path = Some (None, path)"
  by (subst walk_parents.simps) simp

lemma walk_parents_Some:
  "walk_parents mem (Some p) path
     = walk_parents mem (m_parent (mem ! p)) (path @ [m_node (mem ! p)])"
  by (subst walk_parents.simps) simp

lemma walk_parents_end:
  assumes "walk_parents mem cnode path = Some r"
  shows "fst r = None"
  using assms
  by (rule walk_parents.raw_induct [rotated 1, where P = "\<lambda>_ _ _ r. fst r = None"])
     (auto split: option.splits)

lemma FindPath_loop_unfold:
  "FindPath_loop ops goal nb fp st =
     (if m_openlist st = [] then Some (PATH_NOTFOUND, fp, st)
      else if front_node st \<noteq> goal then
        (case AddNeighbors ops (close_front ops st) (nb (front_node st)) of
           None \<Rightarrow> None
         | Some st2 \<Rightarrow> FindPath_loop ops goal nb fp st2)
      else
        (case walk_parents (store st) (Some (hd (m_openlist st))) [] of
           None \<Rightarrow> None
         | Some (c, path) \<Rightarrow>
             Some (PATH_FOUND, path, (close_front ops st)\<lparr> m_currentnode := c \<rparr>)))"
  by (subst FindPath_loop.simps)
     (simp add: close_front_def front_node_def Let_def cong: option.case_cong)

lemma Step_unfold:
  "Step ops st =
     (if m_openlist st = [] then Some (PATH_NOTFOUND, st)
      else if front_node st \<noteq> m_goal st then
        (case AddNeighbors ops (close_front ops st) (m_getneighbors st (front_node st)) of
           None \<Rightarrow> None
         | Some st2 \<Rightarrow> Some (PATH_SEARCHING, st2))
      else Some (PATH_FOUND, close_front ops st))"
  by (simp add: Step_def close_front_def front_node_def Let_def cong: option.case_cong)

lemma StepLoop_unfold:
  "StepLoop ops st =
     (case Step ops st of
        None \<Rightarrow> None
      | Some (r, st') \<Rightarrow> if r = PATH_SEARCHING then StepLoop ops st' else Some (r, st'))"
  by (subst StepLoop.simps) simp

text \<open>Induction over the iterations of a \<^verbatim>\<open>FindPath\<close> loop that returns.\<close>

lemma FindPath_loop_induct [consumes 1, case_names notfound found expand]:
  assumes run: "FindPath_loop ops goal nb fp st = Some r"
    and nf: "\<And>st. m_openlist st = [] \<Longrightarrow> P st (PATH_NOTFOUND, fp, st)"
    and fd: "\<And>st c path. m_openlist st \<noteq> [] \<Longrightarrow> front_node st = goal \<Longrightarrow>
               walk_parents (store st) (Some (hd (m_openlist st))) [] = Some (c, path) \<Longrightarrow>
               P st (PATH_FOUND, path, (close_front ops st)\<lparr> m_currentnode := c \<rparr>)"
    and ex: "\<And>st st2 r. m_openlist st \<noteq> [] \<Longrightarrow> front_node st \<noteq> goal \<Longrightarrow>
               AddNeighbors ops (close_front ops st) (nb (front_node st)) = Some st2 \<Longrightarrow>
               FindPath_loop ops goal nb fp st2 = Some r \<Longrightarrow> P st2 r \<Longrightarrow> P st r"
  shows "P st r"
proof -
  have "ops' = ops \<and> goal' = goal \<and> nb' = nb \<and> fp' = fp \<and>
          FindPath_loop ops goal nb fp st' = Some r' \<longrightarrow> P st' r'"
    if "FindPath_loop ops' goal' nb' fp' st' = Some r'" for ops' goal' nb' fp' st' r'
    using that
  proof (rule FindPath_loop.raw_induct [rotated 1, where P = "\<lambda>ops' goal' nb' fp' st' r'.
          ops' = ops \<and> goal' = goal \<and> nb' = nb \<and> fp' = fp \<and>
          FindPath_loop ops goal nb fp st' = Some r' \<longrightarrow> P st' r'"], goal_cases)
    case (1 loop ops' goal' nb' fp' st' r')
    show ?case
    proof (intro impI, elim conjE)
      assume eqs: "ops' = ops" "goal' = goal" "nb' = nb" "fp' = fp"
        and real: "FindPath_loop ops goal nb fp st' = Some r'"
      show "P st' r'"
      proof (cases "m_openlist st' = []")
        case True
        with real have "r' = (PATH_NOTFOUND, fp, st')" by (simp add: FindPath_loop_unfold)
        with nf [OF True] show ?thesis by simp
      next
        case ne: False
        show ?thesis
        proof (cases "front_node st' = goal")
          case True
          with real ne obtain c path where
            w: "walk_parents (store st') (Some (hd (m_openlist st'))) [] = Some (c, path)"
            and r: "r' = (PATH_FOUND, path, (close_front ops st')\<lparr> m_currentnode := c \<rparr>)"
            by (auto simp: FindPath_loop_unfold split: option.splits)
          from fd [OF ne True w] r show ?thesis by simp
        next
          case False
          with real ne obtain st2 where
            a: "AddNeighbors ops (close_front ops st') (nb (front_node st')) = Some st2"
            and r: "FindPath_loop ops goal nb fp st2 = Some r'"
            by (auto simp: FindPath_loop_unfold split: option.splits)
          from 1(2) ne False a eqs have "loop ops goal nb fp st2 = Some r'"
            by (simp add: close_front_def front_node_def Let_def)
          from 1(1) [OF this] r have "P st2 r'" by simp
          from ex [OF ne False a r this] show ?thesis .
        qed
      qed
    qed
  qed
  with run show ?thesis by blast
qed

text \<open>Induction over the calls of \<^verbatim>\<open>Step\<close> in a caller's loop that ends.\<close>

lemma StepLoop_induct [consumes 1, case_names last again]:
  assumes run: "StepLoop ops st = Some r"
    and last: "\<And>st c st'. Step ops st = Some (c, st') \<Longrightarrow> c \<noteq> PATH_SEARCHING \<Longrightarrow> P st (c, st')"
    and again: "\<And>st st' r. Step ops st = Some (PATH_SEARCHING, st') \<Longrightarrow>
                  StepLoop ops st' = Some r \<Longrightarrow> P st' r \<Longrightarrow> P st r"
  shows "P st r"
proof -
  have "ops' = ops \<and> StepLoop ops st' = Some r' \<longrightarrow> P st' r'"
    if "StepLoop ops' st' = Some r'" for ops' st' r'
    using that
  proof (rule StepLoop.raw_induct [rotated 1, where P = "\<lambda>ops' st' r'.
          ops' = ops \<and> StepLoop ops st' = Some r' \<longrightarrow> P st' r'"], goal_cases)
    case (1 loop ops' st' r')
    show ?case
    proof (intro impI, elim conjE)
      assume eqs: "ops' = ops" and real: "StepLoop ops st' = Some r'"
      from real obtain c st'' where s: "Step ops st' = Some (c, st'')"
        by (subst (asm) StepLoop_unfold) (auto split: option.splits)
      show "P st' r'"
      proof (cases "c = PATH_SEARCHING")
        case False
        with real s have "r' = (c, st'')" by (subst (asm) StepLoop_unfold) simp
        with last [OF s False] show ?thesis by simp
      next
        case True
        with real s have r: "StepLoop ops st'' = Some r'" by (subst (asm) StepLoop_unfold) simp
        from 1(2) s True eqs have "loop ops st'' = Some r'" by simp
        from 1(1) [OF this] r have "P st'' r'" by simp
        from again [OF s [unfolded True] r this] show ?thesis .
      qed
    qed
  qed
  with run show ?thesis by blast
qed

subsection \<open>What \<^verbatim>\<open>FindPath\<close> leaves behind\<close>

lemma FindPath_loop_found_current:
  assumes "FindPath_loop ops goal nb fp st = Some r"
  shows "fst r = PATH_FOUND \<longrightarrow> m_currentnode (snd (snd r)) = None"
  using assms
proof (induction rule: FindPath_loop_induct)
  case (found st c path)
  from walk_parents_end [OF found(3)] show ?case by simp
qed simp_all

lemma FindPath_loop_notfound_path:
  assumes "FindPath_loop ops goal nb fp st = Some r"
  shows "fst r = PATH_NOTFOUND \<longrightarrow> fst (snd r) = fp"
  using assms by (induction rule: FindPath_loop_induct) simp_all

lemma FindPath_loop_c_notfound_path:
  assumes "FindPath_loop_c ops goal nb fp st = Some r"
  shows "fst r = PATH_NOTFOUND \<longrightarrow> fst (snd r) = fp"
  using assms
  by (rule FindPath_loop_c.raw_induct [rotated 1, where P = "\<lambda>_ _ _ fp _ r.
         fst r = PATH_NOTFOUND \<longrightarrow> fst (snd r) = fp"])
     (auto simp: Let_def split: if_splits option.splits)

text \<open>
  Claim C10. After \<^verbatim>\<open>FindPath\<close> has returned \<^verbatim>\<open>PATH_FOUND\<close>, the path reconstruction has
  moved \<^verbatim>\<open>m_currentnode\<close> along the parent pointers to the null pointer, and \<^verbatim>\<open>GetPath\<close>,
  whatever its argument held, produces the empty vector.
\<close>

theorem GetPath_after_FindPath:
  assumes "FindPath ops st start goal finalpath destinationcost getneighbors
             = Some (PATH_FOUND, finalpath', st')"
  shows "m_currentnode st' = None \<and> GetPath st' path = Some []"
proof -
  from assms have "m_currentnode st' = None"
    unfolding FindPath_def Let_def by (auto dest: FindPath_loop_found_current)
  then show ?thesis by (simp add: GetPath_def walk_parents_None)
qed

text \<open>
  Claim C9. When \<^verbatim>\<open>FindPath\<close> of \<^verbatim>\<open>AStarGeneric\<close> or of \<^verbatim>\<open>AStarGenericCached\<close> returns
  \<^verbatim>\<open>PATH_NOTFOUND\<close>, the vector \<open>finalpath\<close> is as the caller passed it.
\<close>

theorem FindPath_notfound_finalpath:
  "(FindPath ops st start goal finalpath destinationcost getneighbors
      = Some (PATH_NOTFOUND, finalpath', st') \<longrightarrow> finalpath' = finalpath) \<and>
   (FindPath_c ops stc start startindex goal finalpath destinationcost getneighbors_c
      = Some (PATH_NOTFOUND, finalpath'', stc') \<longrightarrow> finalpath'' = finalpath)"
  unfolding FindPath_def FindPath_c_def Let_def
  by (auto dest: FindPath_loop_notfound_path FindPath_loop_c_notfound_path)

subsection \<open>Step by step, and in one call\<close>

lemma AddNeighbor_start_getneighbors:
  "AddNeighbor ops (st\<lparr> m_start := a, m_getneighbors := b \<rparr>) n c
     = map_option (\<lambda>s. s\<lparr> m_start := a, m_getneighbors := b \<rparr>) (AddNeighbor ops st n c)"
  by (simp add: AddNeighbor_def Let_def split: option.splits)

lemma AddNeighbors_start_getneighbors:
  "AddNeighbors ops (st\<lparr> m_start := a, m_getneighbors := b \<rparr>) ncs
     = map_option (\<lambda>s. s\<lparr> m_start := a, m_getneighbors := b \<rparr>) (AddNeighbors ops st ncs)"
proof (induction ncs arbitrary: st)
  case Nil
  show ?case by simp
next
  case (Cons nc ncs)
  obtain n c where nc: "nc = (n, c)" by (cases nc)
  show ?case
    by (cases "AddNeighbor ops st n c") (simp_all add: nc AddNeighbor_start_getneighbors Cons.IH)
qed

lemma AddNeighbor_goal: "AddNeighbor ops st n c = Some st' \<Longrightarrow> m_goal st' = m_goal st"
  by (auto simp: AddNeighbor_def Let_def split: if_splits option.splits)

lemma AddNeighbors_goal: "AddNeighbors ops st ncs = Some st' \<Longrightarrow> m_goal st' = m_goal st"
proof (induction ncs arbitrary: st)
  case Nil
  then show ?case by simp
next
  case (Cons nc ncs)
  obtain n c where nc: "nc = (n, c)" by (cases nc)
  from Cons.prems obtain st1 where 1: "AddNeighbor ops st n c = Some st1"
    and 2: "AddNeighbors ops st1 ncs = Some st'"
    by (auto simp: nc split: option.splits)
  from Cons.IH [OF 2] AddNeighbor_goal [OF 1] show ?case by simp
qed

lemma close_front_start_getneighbors:
  "close_front ops (st\<lparr> m_start := a, m_getneighbors := b \<rparr>)
     = (close_front ops st)\<lparr> m_start := a, m_getneighbors := b \<rparr>"
  by (simp add: close_front_def Let_def)

lemma close_front_goal: "m_goal (close_front ops st) = m_goal st"
  by (simp add: close_front_def Let_def)

lemma close_front_store: "store (close_front ops st) = store st"
  by (simp add: close_front_def Let_def)

lemma close_front_currentnode: "m_currentnode (close_front ops st) = Some (hd (m_openlist st))"
  by (simp add: close_front_def Let_def)

lemma Step_start_getneighbors:
  "Step ops (st\<lparr> m_start := a, m_getneighbors := nb \<rparr>) =
     (if m_openlist st = [] then Some (PATH_NOTFOUND, st\<lparr> m_start := a, m_getneighbors := nb \<rparr>)
      else if front_node st \<noteq> m_goal st then
        map_option (\<lambda>s. (PATH_SEARCHING, s\<lparr> m_start := a, m_getneighbors := nb \<rparr>))
          (AddNeighbors ops (close_front ops st) (nb (front_node st)))
      else Some (PATH_FOUND, (close_front ops st)\<lparr> m_start := a, m_getneighbors := nb \<rparr>))"
  by (simp add: Step_unfold close_front_start_getneighbors AddNeighbors_start_getneighbors
        front_node_def split: option.splits)

lemma FindPath_loop_StepLoop:
  assumes "FindPath_loop ops goal nb fp st = Some r"
  shows "m_goal st = goal \<longrightarrow>
     step_outcome fp (StepLoop ops (st\<lparr> m_start := a, m_getneighbors := nb \<rparr>)) = outcome (Some r)"
  using assms
proof (induction rule: FindPath_loop_induct)
  case (notfound st)
  then show ?case
    by (subst StepLoop_unfold) (simp add: Step_start_getneighbors step_outcome_def outcome_def)
next
  case (found st c path)
  then show ?case
    by (subst StepLoop_unfold)
       (simp add: Step_start_getneighbors step_outcome_def outcome_def GetPath_def
          close_front_store close_front_currentnode)
next
  case (expand st st2 r)
  show ?case
  proof
    assume g: "m_goal st = goal"
    from AddNeighbors_goal [OF expand(3)] g have "m_goal st2 = goal"
      by (simp add: close_front_goal)
    with expand(5) have "step_outcome fp (StepLoop ops (st2\<lparr> m_start := a, m_getneighbors := nb \<rparr>))
        = outcome (Some r)" by simp
    moreover have "StepLoop ops (st\<lparr> m_start := a, m_getneighbors := nb \<rparr>)
        = StepLoop ops (st2\<lparr> m_start := a, m_getneighbors := nb \<rparr>)"
      using expand(1,2,3) g
      by (subst StepLoop_unfold) (simp add: Step_start_getneighbors)
    ultimately show "step_outcome fp (StepLoop ops (st\<lparr> m_start := a, m_getneighbors := nb \<rparr>))
        = outcome (Some r)" by simp
  qed
qed

lemma StepLoop_FindPath_loop:
  assumes "StepLoop ops sst = Some r"
  shows "\<forall>st. sst = st\<lparr> m_start := a, m_getneighbors := nb \<rparr> \<and> m_goal st = goal \<longrightarrow>
           outcome (FindPath_loop ops goal nb fp st) = step_outcome fp (Some r)"
  using assms
proof (induction rule: StepLoop_induct)
  case (last sst c st')
  show ?case
  proof (intro allI impI, elim conjE)
    fix st assume s: "sst = st\<lparr> m_start := a, m_getneighbors := nb \<rparr>" and g: "m_goal st = goal"
    show "outcome (FindPath_loop ops goal nb fp st) = step_outcome fp (Some (c, st'))"
    proof (cases "m_openlist st = []")
      case True
      with last s g show ?thesis
        by (subst FindPath_loop_unfold)
           (auto simp: Step_start_getneighbors step_outcome_def outcome_def)
    next
      case False
      with last s g show ?thesis
        by (subst FindPath_loop_unfold)
           (auto simp: Step_start_getneighbors step_outcome_def outcome_def GetPath_def
              close_front_store close_front_currentnode split: if_splits option.splits)
    qed
  qed
next
  case (again sst sst' r)
  show ?case
  proof (intro allI impI, elim conjE)
    fix st assume s: "sst = st\<lparr> m_start := a, m_getneighbors := nb \<rparr>" and g: "m_goal st = goal"
    from again(1) s g obtain st2 where
      ne: "m_openlist st \<noteq> []" "front_node st \<noteq> goal"
      and a: "AddNeighbors ops (close_front ops st) (nb (front_node st)) = Some st2"
      and s': "sst' = st2\<lparr> m_start := a, m_getneighbors := nb \<rparr>"
      by (auto simp: Step_start_getneighbors split: if_splits)
    from AddNeighbors_goal [OF a] g have "m_goal st2 = goal" by (simp add: close_front_goal)
    with again(3) s' have "outcome (FindPath_loop ops goal nb fp st2) = step_outcome fp (Some r)"
      by blast
    moreover from ne a have "FindPath_loop ops goal nb fp st = FindPath_loop ops goal nb fp st2"
      by (subst FindPath_loop_unfold) simp
    ultimately show "outcome (FindPath_loop ops goal nb fp st) = step_outcome fp (Some r)"
      by simp
  qed
qed

lemma FindPath_as_loop:
  "FindPath ops st start goal fp dc nb
     = FindPath_loop ops goal nb fp
         ((InitializeStep ops st start goal dc nb')\<lparr> m_start := m_start st,
                                                     m_getneighbors := m_getneighbors st \<rparr>)"
  by (simp add: FindPath_def InitializeStep_def Let_def)

lemma InitializeStep_goal: "m_goal (InitializeStep ops st start goal dc nb) = goal"
  by (simp add: InitializeStep_def Let_def)

lemma InitializeStep_start_getneighbors:
  "(InitializeStep ops st start goal dc nb)\<lparr> m_start := start, m_getneighbors := nb \<rparr>
     = InitializeStep ops st start goal dc nb"
  by (simp add: InitializeStep_def Let_def)

text \<open>
  Claim C5. For the same inputs, \<^verbatim>\<open>InitializeStep\<close> followed by \<^verbatim>\<open>Step\<close> until it answers
  something other than \<^verbatim>\<open>PATH_SEARCHING\<close> ends exactly when the single \<^verbatim>\<open>FindPath\<close> call
  returns, with the same result code, and on \<^verbatim>\<open>PATH_FOUND\<close> \<^verbatim>\<open>GetPath\<close> gives the path
  that \<^verbatim>\<open>FindPath\<close> wrote to \<open>finalpath\<close>.
\<close>

theorem Step_FindPath_same_outcome:
  "step_outcome finalpath (StepLoop ops (InitializeStep ops st start goal destinationcost getneighbors))
     = outcome (FindPath ops st start goal finalpath destinationcost getneighbors)"
proof -
  let ?i = "InitializeStep ops st start goal destinationcost getneighbors"
  let ?f = "?i\<lparr> m_start := m_start st, m_getneighbors := m_getneighbors st \<rparr>"
  have i: "?i = ?f\<lparr> m_start := start, m_getneighbors := getneighbors \<rparr>"
    by (simp add: InitializeStep_def Let_def)
  have g: "m_goal ?f = goal" by (simp add: InitializeStep_def Let_def)
  have f: "FindPath ops st start goal finalpath destinationcost getneighbors
             = FindPath_loop ops goal getneighbors finalpath ?f"
    by (rule FindPath_as_loop)
  show ?thesis
  proof (cases "FindPath_loop ops goal getneighbors finalpath ?f")
    case (Some r)
    from FindPath_loop_StepLoop [OF Some, where a = start] g i f Some show ?thesis by simp
  next
    case None
    show ?thesis
    proof (cases "StepLoop ops ?i")
      case n: None
      with None f show ?thesis by (simp add: step_outcome_def outcome_def)
    next
      case (Some r')
      from StepLoop_FindPath_loop [OF Some, where a = start and nb = getneighbors and goal = goal
          and fp = finalpath] i g
      have "outcome (FindPath_loop ops goal getneighbors finalpath ?f)
              = step_outcome finalpath (Some r')" by blast
      with Some f show ?thesis by simp
    qed
  qed
qed




lemma mset_single_list: "mset xs = mset [p] \<Longrightarrow> xs = [p]"
  by (cases xs) auto

lemma is_heap_Nil: "is_heap cmp []"
  by (simp add: is_heap_def)

lemma is_heap_single: "is_heap cmp [p]"
  by (simp add: is_heap_def)

lemma std_push_heap_single:
  assumes "std_heap ops"
  shows "push_heap ops (astarnodecompare mem) [p] = [p]"
  using std_push_heap(1) [OF assms, of "[p]" mem] by (simp add: is_heap_Nil mset_single_list)

lemma std_pop_heap_single:
  assumes "std_heap ops"
  shows "pop_heap ops (astarnodecompare mem) [p] = [p]"
  using std_pop_heap(1) [OF assms, of "[p]" mem] by (simp add: is_heap_single mset_single_list)

lemma hl_fields:
  "store_c (hl st i) = store_c st" "m_openlist_c (hl st i) = m_openlist_c st"
  "m_closedlist_c (hl st i) = m_closedlist_c st" "m_currentnode_c (hl st i) = m_currentnode_c st"
  "m_astaropen_c (hl st i) = m_astaropen_c st" "m_goal_c (hl st i) = m_goal_c st"
  "m_destinationcost_c (hl st i) = m_destinationcost_c st" "m_cache (hl st i) = m_cache st"
  "m_cachestartindex (hl st i) = m_cachestartindex st" "m_start_c (hl st i) = m_start_c st"
  "m_getneighbors_c (hl st i) = m_getneighbors_c st"
  "astar_c.more (hl st i) = astar_c.more st"
  "m_helperlist_c (hl st i)
     = fst (grow_window listelement0 (m_helperlist_c st, m_helperliststartindex st) i)"
  "m_helperliststartindex (hl st i)
     = snd (grow_window listelement0 (m_helperlist_c st, m_helperliststartindex st) i)"
  by (simp_all add: hl_def Let_def)

text \<open>
  Claim C3. In every variant the start node is created with \<open>g = destinationcost(start, goal)\<close>,
  \<open>h = 0\<close> and \<open>f = g + h\<close>, whatever the goal is: by \<^verbatim>\<open>InitializeStep\<close> and by \<^verbatim>\<open>FindPath\<close>
  of \<^verbatim>\<open>AStarGeneric\<close> and of \<^verbatim>\<open>AStarGenericCached\<close>, and by \<^verbatim>\<open>FindPath\<close> of
  \<^verbatim>\<open>AStarTile8DirCached\<close>; each \<^verbatim>\<open>FindPath\<close> enters its loop with that node alone in the
  store and on the open list. So when the start is the goal, \<^verbatim>\<open>FindPath\<close> returns
  \<^verbatim>\<open>PATH_FOUND\<close> with the path \<open>[start]\<close> after closing that one node, whose \<open>g\<close> is
  \<open>destinationcost(start, start)\<close>, not zero.
\<close>

theorem start_is_goal:
  assumes "std_heap ops"
  shows
   "store (InitializeStep ops st start goal dc nb)
      = [\<lparr> m_node = start, m_parent = None, m_f = dc start goal + 0, m_g = dc start goal, m_h = 0 \<rparr>] \<and>
    m_openlist (InitializeStep ops st start goal dc nb) = [0] \<and>
    FindPath ops st start goal fp dc nb
      = FindPath_loop ops goal nb fp
          ((InitializeStep ops st start goal dc nb)
             \<lparr> m_start := m_start st, m_getneighbors := m_getneighbors st \<rparr>) \<and>
    (\<exists>st'. FindPath ops st start start fp dc nb = Some (PATH_FOUND, [start], st') \<and>
       m_closedlist st' = [0] \<and>
       store st' = [\<lparr> m_node = start, m_parent = None, m_f = dc start start,
                      m_g = dc start start, m_h = 0 \<rparr>]) \<and>
    (\<exists>st'. FindPath_c ops stc start startindex start fp dc nbc = Some (PATH_FOUND, [start], st') \<and>
       m_closedlist_c st' = [0] \<and>
       store_c st' = [\<lparr> m_node = start, m_parent = None, m_f = dc start start,
                        m_g = dc start start, m_h = 0, m_index = startindex \<rparr>]) \<and>
    (\<exists>st'. FindPath_t ops stt pos pos fpt movecost dct = Some (PATH_FOUND, [pos], st') \<and>
       m_closedlist_t st' = [0] \<and>
       store_t st' = [\<lparr> m_node = pos, m_parent = None, m_f = dct pos pos,
                        m_g = dct pos pos, m_h = 0 \<rparr>]) \<and>
    store_c (InitializeStep_c ops stc start startindex goal dc nbc)
      = [\<lparr> m_node = start, m_parent = None, m_f = dc start goal + 0, m_g = dc start goal, m_h = 0,
           m_index = startindex \<rparr>] \<and>
    m_openlist_c (InitializeStep_c ops stc start startindex goal dc nbc) = [0] \<and>
    FindPath_c ops stc start startindex goal fp dc nbc
      = FindPath_loop_c ops goal nbc fp
          ((InitializeStep_c ops stc start startindex goal dc nbc)
             \<lparr> m_start_c := m_start_c stc, m_getneighbors_c := m_getneighbors_c stc \<rparr>) \<and>
    store_t (FindPath_t_start ops stt pos goalpos dct)
      = [\<lparr> m_node = pos, m_parent = None, m_f = dct pos goalpos + 0, m_g = dct pos goalpos,
           m_h = 0 \<rparr>] \<and>
    m_openlist_t (FindPath_t_start ops stt pos goalpos dct) = [0] \<and>
    m_closedlist_t (FindPath_t_start ops stt pos goalpos dct) = [] \<and>
    FindPath_t ops stt pos goalpos fpt movecost dct
      = FindPath_loop_t ops goalpos movecost dct fpt (FindPath_t_start ops stt pos goalpos dct)"
proof (intro conjI)
  show "store (InitializeStep ops st start goal dc nb)
      = [\<lparr> m_node = start, m_parent = None, m_f = dc start goal + 0, m_g = dc start goal, m_h = 0 \<rparr>]"
    by (simp add: InitializeStep_def Let_def)
  show "m_openlist (InitializeStep ops st start goal dc nb) = [0]"
    by (simp add: InitializeStep_def Let_def std_push_heap_single [OF assms])
  show "FindPath ops st start goal fp dc nb
      = FindPath_loop ops goal nb fp
          ((InitializeStep ops st start goal dc nb)
             \<lparr> m_start := m_start st, m_getneighbors := m_getneighbors st \<rparr>)"
    by (rule FindPath_as_loop)
  show "\<exists>st'. FindPath ops st start start fp dc nb = Some (PATH_FOUND, [start], st') \<and>
       m_closedlist st' = [0] \<and>
       store st' = [\<lparr> m_node = start, m_parent = None, m_f = dc start start,
                      m_g = dc start start, m_h = 0 \<rparr>]"
    by (simp add: FindPath_def Let_def std_push_heap_single [OF assms] FindPath_loop_unfold
          front_node_def walk_parents_Some walk_parents_None close_front_def)
  show "\<exists>st'. FindPath_c ops stc start startindex start fp dc nbc = Some (PATH_FOUND, [start], st') \<and>
       m_closedlist_c st' = [0] \<and>
       store_c st' = [\<lparr> m_node = start, m_parent = None, m_f = dc start start,
                        m_g = dc start start, m_h = 0, m_index = startindex \<rparr>]"
    unfolding FindPath_c_def Let_def
    by (subst FindPath_loop_c.simps)
       (simp add: Let_def std_push_heap_single [OF assms] std_pop_heap_single [OF assms]
          hl_def grow_window_def walk_parents_Some walk_parents_None)
  show "\<exists>st'. FindPath_t ops stt pos pos fpt movecost dct = Some (PATH_FOUND, [pos], st') \<and>
       m_closedlist_t st' = [0] \<and>
       store_t st' = [\<lparr> m_node = pos, m_parent = None, m_f = dct pos pos,
                        m_g = dct pos pos, m_h = 0 \<rparr>]"
    unfolding FindPath_t_def Let_def
    by (subst FindPath_loop_t.simps)
       (simp add: Let_def std_push_heap_single [OF assms] std_pop_heap_single [OF assms]
          hl_t_def grow_window_def walk_parents_Some walk_parents_None)
  show "store_c (InitializeStep_c ops stc start startindex goal dc nbc)
      = [\<lparr> m_node = start, m_parent = None, m_f = dc start goal + 0, m_g = dc start goal, m_h = 0,
           m_index = startindex \<rparr>]"
    by (simp add: InitializeStep_c_def Let_def hl_def)
  show "m_openlist_c (InitializeStep_c ops stc start startindex goal dc nbc) = [0]"
    by (simp add: InitializeStep_c_def Let_def hl_def std_push_heap_single [OF assms])
  show "FindPath_c ops stc start startindex goal fp dc nbc
      = FindPath_loop_c ops goal nbc fp
          ((InitializeStep_c ops stc start startindex goal dc nbc)
             \<lparr> m_start_c := m_start_c stc, m_getneighbors_c := m_getneighbors_c stc \<rparr>)"
    unfolding FindPath_c_def InitializeStep_c_def Let_def
    by (rule arg_cong [where f = "FindPath_loop_c ops goal nbc fp"])
       (rule astar_c.equality; simp add: hl_fields)
  show "store_t (FindPath_t_start ops stt pos goalpos dct)
      = [\<lparr> m_node = pos, m_parent = None, m_f = dct pos goalpos + 0, m_g = dct pos goalpos,
           m_h = 0 \<rparr>]"
    by (simp add: FindPath_t_start_def Let_def hl_t_def)
  show "m_openlist_t (FindPath_t_start ops stt pos goalpos dct) = [0]"
    by (simp add: FindPath_t_start_def Let_def hl_t_def std_push_heap_single [OF assms])
  show "m_closedlist_t (FindPath_t_start ops stt pos goalpos dct) = []"
    by (simp add: FindPath_t_start_def Let_def hl_t_def)
  show "FindPath_t ops stt pos goalpos fpt movecost dct
      = FindPath_loop_t ops goalpos movecost dct fpt (FindPath_t_start ops stt pos goalpos dct)"
    by (simp add: FindPath_t_def FindPath_t_start_def Let_def)
qed

theorem start_is_goal_witness:
  "std_heap sorting_heap \<and>
   store (InitializeStep sorting_heap astar0 0 2 skew_cost line_nb)
     = [\<lparr> m_node = 0, m_parent = None, m_f = 21, m_g = 21, m_h = 0 \<rparr>] \<and>
   store_c (InitializeStep_c sorting_heap astar_c0 0 0 2 skew_cost line_nb_c)
     = [\<lparr> m_node = 0, m_parent = None, m_f = 21, m_g = 21, m_h = 0, m_index = 0 \<rparr>] \<and>
   store_t (FindPath_t_start sorting_heap tile0 (0, 0) (2, 0) skew_cost_t)
     = [\<lparr> m_node = (0, 0), m_parent = None, m_f = 21, m_g = 21, m_h = 0 \<rparr>] \<and>
   FindPath sorting_heap astar0 0 2 [] skew_cost line_nb
     = FindPath_loop sorting_heap 2 line_nb []
         ((InitializeStep sorting_heap astar0 0 2 skew_cost line_nb)
            \<lparr> m_start := m_start astar0, m_getneighbors := m_getneighbors astar0 \<rparr>) \<and>
   FindPath_c sorting_heap astar_c0 0 0 2 [] skew_cost line_nb_c
     = FindPath_loop_c sorting_heap 2 line_nb_c []
         ((InitializeStep_c sorting_heap astar_c0 0 0 2 skew_cost line_nb_c)
            \<lparr> m_start_c := m_start_c astar_c0, m_getneighbors_c := m_getneighbors_c astar_c0 \<rparr>) \<and>
   FindPath_t sorting_heap tile0 (0, 0) (2, 0) [] tile_cost skew_cost_t
     = FindPath_loop_t sorting_heap (2, 0) tile_cost skew_cost_t []
         (FindPath_t_start sorting_heap tile0 (0, 0) (2, 0) skew_cost_t) \<and>
   (\<exists>st'. FindPath sorting_heap astar0 1 1 [] skew_cost line_nb = Some (PATH_FOUND, [1], st') \<and>
      m_closedlist st' = [0] \<and>
      store st' = [\<lparr> m_node = 1, m_parent = None, m_f = 12, m_g = 12, m_h = 0 \<rparr>]) \<and>
   (\<exists>st'. FindPath_c sorting_heap astar_c0 1 1 1 [] skew_cost line_nb_c
             = Some (PATH_FOUND, [1], st') \<and>
      m_closedlist_c st' = [0] \<and>
      store_c st' = [\<lparr> m_node = 1, m_parent = None, m_f = 12, m_g = 12, m_h = 0, m_index = 1 \<rparr>]) \<and>
   (\<exists>st'. FindPath_t sorting_heap tile0 (1, 0) (1, 0) [] tile_cost skew_cost_t
             = Some (PATH_FOUND, [(1, 0)], st') \<and>
      m_closedlist_t st' = [0] \<and>
      store_t st' = [\<lparr> m_node = (1, 0), m_parent = None, m_f = 12, m_g = 12, m_h = 0 \<rparr>])"
proof -
  have k: "skew_cost 0 2 = 21" "skew_cost 1 1 = 12" "skew_cost_t (0, 0) (2, 0) = 21"
    "skew_cost_t (1, 0) (1, 0) = 12"
    by (simp_all add: skew_cost_def skew_cost_t_def)
  note a = start_is_goal [OF std_heap_sorting_heap, where st = astar0 and start = 0 and goal = 2
      and dc = skew_cost and nb = line_nb and fp = "[]" and stc = astar_c0 and startindex = 0
      and nbc = line_nb_c and stt = tile0 and pos = "(0, 0)" and goalpos = "(2, 0)"
      and fpt = "[]" and movecost = tile_cost and dct = skew_cost_t, unfolded k]
  note b = start_is_goal [OF std_heap_sorting_heap, where st = astar0 and start = 1 and goal = 1
      and dc = skew_cost and nb = line_nb and fp = "[]" and stc = astar_c0 and startindex = 1
      and nbc = line_nb_c and stt = tile0 and pos = "(1, 0)" and goalpos = "(1, 0)"
      and fpt = "[]" and movecost = tile_cost and dct = skew_cost_t, unfolded k]
  have z: "(21::int) + 0 = 21" by simp
  from a [unfolded z] b std_heap_sorting_heap show ?thesis by blast
qed

theorem GetPath_after_FindPath_witness:
  "\<exists>st'. FindPath sorting_heap astar0 0 2 [] (\<lambda>_ _. 0) line_nb = Some (PATH_FOUND, [2, 1, 0], st') \<and>
         m_currentnode st' = None \<and> GetPath st' [5, 5] = Some []"
proof -
  have "outcome (FindPath sorting_heap astar0 0 2 [] (\<lambda>_ _. 0) line_nb)
          = Some (PATH_FOUND, [2, 1, 0])"
    by code_simp
  then obtain st' where
    f: "FindPath sorting_heap astar0 0 2 [] (\<lambda>_ _. 0) line_nb = Some (PATH_FOUND, [2, 1, 0], st')"
    by (auto simp: outcome_def)
  from GetPath_after_FindPath [OF f, of "[5, 5]"] f show ?thesis by blast
qed

theorem FindPath_notfound_finalpath_witness:
  "outcome (FindPath sorting_heap astar0 0 7 [4, 4] (\<lambda>_ _. 0) line_nb)
     = Some (PATH_NOTFOUND, [4, 4]) \<and>
   outcome (FindPath_c sorting_heap astar_c0 0 0 7 [4, 4] (\<lambda>_ _. 0) line_nb_c)
     = Some (PATH_NOTFOUND, [4, 4])"
proof -
  have "map_option fst (FindPath sorting_heap astar0 0 7 [4, 4] (\<lambda>_ _. 0) line_nb)
          = Some PATH_NOTFOUND"
    by code_simp
  then obtain fp' st' where
    a: "FindPath sorting_heap astar0 0 7 [4, 4] (\<lambda>_ _. 0) line_nb = Some (PATH_NOTFOUND, fp', st')"
    by auto
  have "map_option fst (FindPath_c sorting_heap astar_c0 0 0 7 [4, 4] (\<lambda>_ _. 0) line_nb_c)
          = Some PATH_NOTFOUND"
    by code_simp
  then obtain fp'' stc' where
    b: "FindPath_c sorting_heap astar_c0 0 0 7 [4, 4] (\<lambda>_ _. 0) line_nb_c
          = Some (PATH_NOTFOUND, fp'', stc')"
    by auto
  from FindPath_notfound_finalpath [where ops = sorting_heap and st = astar0 and start = 0
      and goal = 7 and finalpath = "[4, 4]" and destinationcost = "\<lambda>_ _. 0"
      and getneighbors = line_nb and finalpath' = fp' and st' = st' and stc = astar_c0
      and startindex = 0 and getneighbors_c = line_nb_c and finalpath'' = fp'' and stc' = stc']
    a b
  show ?thesis by (simp add: outcome_def)
qed

lemma AddNeighbor_defined:
  assumes "m_currentnode st = Some cur"
  shows "\<exists>st'. AddNeighbor ops st v c = Some st'"
  using assms by (simp add: AddNeighbor_def Let_def split: option.splits)

lemma AddNeighbor_cases [consumes 1, case_names closed same better new]:
  assumes "AddNeighbor ops st v c = Some st'"
  obtains
    (closed) "m_onclosed (m_helperlist st v)" "st' = st"
  | (same) cur a where "\<not> m_onclosed (m_helperlist st v)" "m_currentnode st = Some cur"
      "node_of st v = Some a" "\<not> m_g (store st ! cur) + c < m_g (store st ! a)"
      "st' = st\<lparr> m_astaropen := Some a \<rparr>"
  | (better) cur a where "\<not> m_onclosed (m_helperlist st v)" "m_currentnode st = Some cur"
      "node_of st v = Some a" "m_g (store st ! cur) + c < m_g (store st ! a)"
      "st' = st\<lparr> store := (store st)[a := (store st ! a)
                    \<lparr> m_g := m_g (store st ! cur) + c,
                      m_f := m_g (store st ! cur) + c + m_h (store st ! a),
                      m_parent := Some cur \<rparr>],
                  m_openlist := make_heap ops (astarnodecompare ((store st)[a := (store st ! a)
                    \<lparr> m_g := m_g (store st ! cur) + c,
                      m_f := m_g (store st ! cur) + c + m_h (store st ! a),
                      m_parent := Some cur \<rparr>])) (m_openlist st),
                  m_astaropen := Some a \<rparr>"
  | (new) cur where "\<not> m_onclosed (m_helperlist st v)" "m_currentnode st = Some cur"
      "node_of st v = None"
      "st' = st\<lparr> store := store st @ [\<lparr> m_node = v, m_parent = Some cur,
                      m_f = m_g (store st ! cur) + c + m_destinationcost st v (m_goal st),
                      m_g = m_g (store st ! cur) + c,
                      m_h = m_destinationcost st v (m_goal st) \<rparr>],
                  m_openlist := push_heap ops (astarnodecompare (store st @ [\<lparr> m_node = v,
                      m_parent = Some cur,
                      m_f = m_g (store st ! cur) + c + m_destinationcost st v (m_goal st),
                      m_g = m_g (store st ! cur) + c,
                      m_h = m_destinationcost st v (m_goal st) \<rparr>]))
                    (m_openlist st @ [length (store st)]),
                  m_helperlist := (m_helperlist st)
                    (v := (m_helperlist st v)\<lparr> m_onopen := True,
                                              le_m_node := Some (length (store st)) \<rparr>),
                  m_astaropen := None \<rparr>"
  using assms
  by (auto simp: AddNeighbor_def Let_def node_of_def split: if_splits option.splits)

subsection \<open>Lists under the heap operations\<close>

lemma mset_distinct_set:
  assumes "mset ys = mset xs"
  shows "set ys = set xs" and "distinct ys = distinct xs"
  using assms by (metis set_mset_mset, metis mset_eq_imp_distinct_iff)

lemma pop_heap_lists:
  assumes "std_heap ops" "xs \<noteq> []" "is_heap (astarnodecompare mem) xs" "distinct xs"
  shows "set (butlast (pop_heap ops (astarnodecompare mem) xs)) = set xs - {hd xs}"
    and "distinct (butlast (pop_heap ops (astarnodecompare mem) xs))"
proof -
  let ?P = "pop_heap ops (astarnodecompare mem) xs"
  from std_pop_heap [OF assms(1-3)] have m: "mset ?P = mset xs" and l: "last ?P = hd xs"
    by simp_all
  from m assms(2) have ne: "?P \<noteq> []" by auto
  then have P: "?P = butlast ?P @ [hd xs]" using l by (metis append_butlast_last_id)
  from mset_distinct_set [OF m] assms(4) have d: "distinct ?P" and s: "set ?P = set xs"
    by simp_all
  from d P have "distinct (butlast ?P @ [hd xs])" by simp
  then have nin: "hd xs \<notin> set (butlast ?P)" and d': "distinct (butlast ?P)" by simp_all
  from s P have "set (butlast ?P) \<union> {hd xs} = set xs"
    by (metis Un_insert_right list.simps(15) set_append sup_bot.right_neutral empty_set)
  with nin show "set (butlast ?P) = set xs - {hd xs}" by auto
  from d' show "distinct (butlast ?P)" .
qed

lemma push_heap_lists:
  assumes "std_heap ops" "is_heap (astarnodecompare mem) xs"
  shows "set (push_heap ops (astarnodecompare mem) (xs @ [p])) = insert p (set xs)"
    and "distinct (push_heap ops (astarnodecompare mem) (xs @ [p])) = (distinct xs \<and> p \<notin> set xs)"
    and "is_heap (astarnodecompare mem) (push_heap ops (astarnodecompare mem) (xs @ [p]))"
proof -
  have "mset (push_heap ops (astarnodecompare mem) (xs @ [p])) = mset (xs @ [p])"
    using std_push_heap(1) [OF assms(1), of "xs @ [p]" mem] assms(2) by simp
  from mset_distinct_set [OF this]
  show "set (push_heap ops (astarnodecompare mem) (xs @ [p])) = insert p (set xs)"
    and "distinct (push_heap ops (astarnodecompare mem) (xs @ [p])) = (distinct xs \<and> p \<notin> set xs)"
    by auto
  show "is_heap (astarnodecompare mem) (push_heap ops (astarnodecompare mem) (xs @ [p]))"
    using std_push_heap(2) [OF assms(1), of "xs @ [p]" mem] assms(2) by simp
qed

lemma make_heap_lists:
  assumes "std_heap ops"
  shows "set (make_heap ops (astarnodecompare mem) xs) = set xs"
    and "distinct (make_heap ops (astarnodecompare mem) xs) = distinct xs"
  using mset_distinct_set [OF std_make_heap(1) [OF assms, of mem xs]] by simp_all

lemma is_heap_cong:
  assumes "\<forall>p \<in> set xs. m_f (mem' ! p) = m_f (mem ! p)"
  shows "is_heap (astarnodecompare mem') xs = is_heap (astarnodecompare mem) xs"
proof -
  have "astarnodecompare mem' (xs ! i) (xs ! j) = astarnodecompare mem (xs ! i) (xs ! j)"
    if "i < length xs" "j < length xs" for i j
    using that assms by (simp add: astarnodecompare_def)
  moreover have "(i - 1) div 2 < length xs" if "i < length xs" for i
    using that by simp
  ultimately show ?thesis unfolding is_heap_def by auto
qed

subsection \<open>The bookkeeping invariant is kept\<close>

lemma precedes_append: "precedes xs a b \<Longrightarrow> precedes (xs @ ys) a b"
proof -
  assume "precedes xs a b"
  then obtain i j where "i < j" "j < length xs" "xs ! i = a" "xs ! j = b"
    unfolding precedes_def by blast
  then have "i < j \<and> j < length (xs @ ys) \<and> (xs @ ys) ! i = a \<and> (xs @ ys) ! j = b"
    by (simp add: nth_append)
  then show ?thesis unfolding precedes_def by blast
qed

lemma precedes_snoc: "a \<in> set xs \<Longrightarrow> precedes (xs @ [b]) a b"
proof -
  assume "a \<in> set xs"
  then obtain i where "i < length xs" "xs ! i = a" by (auto simp: in_set_conv_nth)
  then have "i < length xs \<and> length xs < length (xs @ [b]) \<and> (xs @ [b]) ! i = a \<and>
             (xs @ [b]) ! length xs = b"
    by (simp add: nth_append)
  then show ?thesis unfolding precedes_def by blast
qed

lemma wf_search_start:
  assumes "std_heap ops"
  shows "wf_search ((InitializeStep ops st start goal dc nb)\<lparr> m_start := s, m_getneighbors := nb' \<rparr>)"
  by (simp add: wf_search_def wf_nodes_def wf_lists_def wf_flags_def wf_costs_def wf_parents_def
        InitializeStep_def Let_def std_push_heap_single [OF assms] node_of_def listelement0_def
        is_heap_single lessThan_Suc)

lemma node_of_inj:
  assumes "wf_nodes st" "p < length (store st)" "q < length (store st)"
    "m_node (store st ! p) = m_node (store st ! q)"
  shows "p = q"
  using assms unfolding wf_nodes_def by (metis option.inject)

lemma wf_hd_open:
  assumes "wf_lists st" "m_openlist st \<noteq> []"
  shows "hd (m_openlist st) \<in> set (m_openlist st)" "hd (m_openlist st) < length (store st)"
    "hd (m_openlist st) \<notin> set (m_closedlist st)"
proof -
  show 1: "hd (m_openlist st) \<in> set (m_openlist st)" using assms(2) by simp
  with assms(1) show "hd (m_openlist st) < length (store st)"
    unfolding wf_lists_def by blast
  from 1 assms(1) show "hd (m_openlist st) \<notin> set (m_closedlist st)"
    unfolding wf_lists_def by auto
qed

lemma close_front_fields:
  "store (close_front ops st) = store st"
  "m_openlist (close_front ops st)
     = butlast (pop_heap ops (astarnodecompare (store st)) (m_openlist st))"
  "m_closedlist (close_front ops st) = m_closedlist st @ [hd (m_openlist st)]"
  "m_currentnode (close_front ops st) = Some (hd (m_openlist st))"
  "node_of (close_front ops st) n = node_of st n"
  "m_onopen (m_helperlist (close_front ops st) n)
     = (n \<noteq> front_node st \<and> m_onopen (m_helperlist st n))"
  "m_onclosed (m_helperlist (close_front ops st) n)
     = (n = front_node st \<or> m_onclosed (m_helperlist st n))"
  "m_goal (close_front ops st) = m_goal st"
  "m_destinationcost (close_front ops st) = m_destinationcost st"
  by (simp_all add: close_front_def Let_def node_of_def front_node_def)

lemma wf_search_close_front:
  assumes std: "std_heap ops" and wf: "wf_search st" and ne: "m_openlist st \<noteq> []"
  shows "wf_search (close_front ops st)"
proof -
  let ?cur = "hd (m_openlist st)"
  from wf have n: "wf_nodes st" and l: "wf_lists st" and f: "wf_flags st" and c: "wf_costs st"
    and p: "wf_parents st" by (simp_all add: wf_search_def)
  note hd = wf_hd_open [OF l ne]
  from c have heap: "is_heap (astarnodecompare (store st)) (m_openlist st)"
    by (simp add: wf_costs_def)
  from l have d: "distinct (m_openlist st)" by (simp add: wf_lists_def)
  note pop = pop_heap_lists [OF std ne heap d]
  have 1: "wf_nodes (close_front ops st)"
    using n by (simp add: wf_nodes_def close_front_fields)
  have 2: "wf_lists (close_front ops st)"
    using l hd pop by (auto simp: wf_lists_def close_front_fields)
  have 3: "wf_flags (close_front ops st)"
    unfolding wf_flags_def
  proof (intro allI conjI)
    fix m
    show "m_onopen (m_helperlist (close_front ops st) m)
            = (\<exists>p \<in> set (m_openlist (close_front ops st)). m_node (store (close_front ops st) ! p) = m)"
    proof (cases "m = front_node st")
      case True
      have "\<not> (\<exists>p \<in> set (m_openlist st) - {?cur}. m_node (store st ! p) = front_node st)"
      proof
        assume "\<exists>p \<in> set (m_openlist st) - {?cur}. m_node (store st ! p) = front_node st"
        then obtain q where q: "q \<in> set (m_openlist st)" "q \<noteq> ?cur"
          "m_node (store st ! q) = m_node (store st ! ?cur)" by (auto simp: front_node_def)
        from q(1) l have "q < length (store st)" unfolding wf_lists_def by blast
        from node_of_inj [OF n this hd(2) q(3)] q(2) show False by simp
      qed
      with True show ?thesis by (simp add: close_front_fields pop)
    next
      case False
      then have "(\<exists>p \<in> set (m_openlist st) - {?cur}. m_node (store st ! p) = m)
                   = (\<exists>p \<in> set (m_openlist st). m_node (store st ! p) = m)"
        by (auto simp: front_node_def)
      with False f show ?thesis by (simp add: close_front_fields pop wf_flags_def)
    qed
    show "m_onclosed (m_helperlist (close_front ops st) m)
            = (\<exists>p \<in> set (m_closedlist (close_front ops st)). m_node (store (close_front ops st) ! p) = m)"
      using f by (auto simp: close_front_fields wf_flags_def front_node_def)
  qed
  have 4: "wf_costs (close_front ops st)"
    using c std_pop_heap(3) [OF std ne heap] by (simp add: wf_costs_def close_front_fields)
  have 5: "wf_parents (close_front ops st)"
    unfolding wf_parents_def
  proof (intro conjI allI impI)
    fix q r assume "q < length (store (close_front ops st))"
      "m_parent (store (close_front ops st) ! q) = Some r"
    with p have r: "r \<in> set (m_closedlist st)"
      and pr: "q \<in> set (m_closedlist st) \<longrightarrow> precedes (m_closedlist st) r q"
      by (simp_all add: wf_parents_def close_front_fields)
    from r show "r \<in> set (m_closedlist (close_front ops st))" by (simp add: close_front_fields)
    assume "q \<in> set (m_closedlist (close_front ops st))"
    then have "q \<in> set (m_closedlist st) \<or> q = ?cur" by (auto simp: close_front_fields)
    then show "precedes (m_closedlist (close_front ops st)) r q"
      using pr r by (auto simp: close_front_fields intro: precedes_append precedes_snoc)
  next
    fix c assume "m_currentnode (close_front ops st) = Some c"
    then show "c \<in> set (m_closedlist (close_front ops st))" by (simp add: close_front_fields)
  qed
  from 1 2 3 4 5 show ?thesis by (simp add: wf_search_def)
qed

lemma wf_search_astaropen: "wf_search (st\<lparr> m_astaropen := x \<rparr>) = wf_search st"
  by (simp add: wf_search_def wf_nodes_def wf_lists_def wf_flags_def wf_costs_def wf_parents_def
        node_of_def)

lemma not_closed_node:
  assumes "wf_flags st" "wf_nodes st" "node_of st v = Some a" "\<not> m_onclosed (m_helperlist st v)"
  shows "a \<notin> set (m_closedlist st)"
proof
  assume "a \<in> set (m_closedlist st)"
  moreover from assms(2,3) have "m_node (store st ! a) = v" by (simp add: wf_nodes_def)
  ultimately have "m_onclosed (m_helperlist st v)" using assms(1) unfolding wf_flags_def by blast
  with assms(4) show False by simp
qed

lemma wf_search_better:
  assumes std: "std_heap ops" and wf: "wf_search st"
    and cur: "m_currentnode st = Some cur" and a: "node_of st v = Some a"
    and nc: "\<not> m_onclosed (m_helperlist st v)"
  shows "wf_search (st\<lparr> store := (store st)[a := (store st ! a)
                    \<lparr> m_g := g, m_f := g + m_h (store st ! a), m_parent := Some cur \<rparr>],
                  m_openlist := make_heap ops (astarnodecompare ((store st)[a := (store st ! a)
                    \<lparr> m_g := g, m_f := g + m_h (store st ! a), m_parent := Some cur \<rparr>]))
                    (m_openlist st),
                  m_astaropen := x \<rparr>)"
    (is "wf_search ?st'")
proof -
  let ?mem = "(store st)[a := (store st ! a)
                \<lparr> m_g := g, m_f := g + m_h (store st ! a), m_parent := Some cur \<rparr>]"
  from wf have n: "wf_nodes st" and l: "wf_lists st" and f: "wf_flags st" and c: "wf_costs st"
    and p: "wf_parents st" by (simp_all add: wf_search_def)
  from n a have al: "a < length (store st)" and av: "m_node (store st ! a) = v"
    by (simp_all add: wf_nodes_def)
  have node: "m_node (?mem ! q) = m_node (store st ! q)" for q
    using al by (cases "q = a") simp_all
  note mk = make_heap_lists [OF std, of ?mem "m_openlist st"]
  from not_closed_node [OF f n a nc] have anc: "a \<notin> set (m_closedlist st)" .
  from p cur have curc: "cur \<in> set (m_closedlist st)" by (simp add: wf_parents_def)
  have 1: "wf_nodes ?st'" using n by (simp add: wf_nodes_def node_of_def node)
  have 2: "wf_lists ?st'" using l mk by (simp add: wf_lists_def)
  have 3: "wf_flags ?st'" using f mk by (simp add: wf_flags_def node)
  have 4: "wf_costs ?st'"
    unfolding wf_costs_def
  proof (intro conjI allI impI)
    fix q assume "q < length (store ?st')"
    then show "m_f (store ?st' ! q) = m_g (store ?st' ! q) + m_h (store ?st' ! q)"
      using c al by (cases "q = a") (simp_all add: wf_costs_def)
  next
    show "is_heap (astarnodecompare (store ?st')) (m_openlist ?st')"
      using std_make_heap(2) [OF std, of ?mem "m_openlist st"] by simp
  qed
  have 5: "wf_parents ?st'"
    unfolding wf_parents_def
  proof (intro conjI allI impI)
    fix q r assume q: "q < length (store ?st')" and r: "m_parent (store ?st' ! q) = Some r"
    show "r \<in> set (m_closedlist ?st')"
      using q r p curc al by (cases "q = a") (simp_all add: wf_parents_def)
    assume "q \<in> set (m_closedlist ?st')"
    then show "precedes (m_closedlist ?st') r q"
      using q r p anc al by (cases "q = a") (simp_all add: wf_parents_def)
  next
    fix c assume "m_currentnode ?st' = Some c"
    then show "c \<in> set (m_closedlist ?st')" using p by (simp add: wf_parents_def)
  qed
  from 1 2 3 4 5 show ?thesis by (simp add: wf_search_def)
qed

lemma wf_search_new:
  assumes std: "std_heap ops" and wf: "wf_search st"
    and cur: "m_currentnode st = Some cur" and a: "node_of st v = None"
    and nc: "\<not> m_onclosed (m_helperlist st v)"
  shows "wf_search (st\<lparr> store := store st @ [\<lparr> m_node = v, m_parent = Some cur,
                      m_f = g + h, m_g = g, m_h = h \<rparr>],
                  m_openlist := push_heap ops (astarnodecompare (store st @ [\<lparr> m_node = v,
                      m_parent = Some cur, m_f = g + h, m_g = g, m_h = h \<rparr>]))
                    (m_openlist st @ [length (store st)]),
                  m_helperlist := (m_helperlist st)
                    (v := (m_helperlist st v)\<lparr> m_onopen := True,
                                              le_m_node := Some (length (store st)) \<rparr>),
                  m_astaropen := x \<rparr>)"
    (is "wf_search ?st'")
proof -
  let ?nd = "\<lparr> m_node = v, m_parent = Some cur, m_f = g + h, m_g = g, m_h = h \<rparr>"
  let ?mem = "store st @ [?nd]"
  let ?len = "length (store st)"
  from wf have n: "wf_nodes st" and l: "wf_lists st" and f: "wf_flags st" and c: "wf_costs st"
    and p: "wf_parents st" by (simp_all add: wf_search_def)
  from l have lt: "\<forall>q \<in> set (m_openlist st) \<union> set (m_closedlist st). q < ?len"
    unfolding wf_lists_def by blast
  have old: "?mem ! q = store st ! q" if "q < ?len" for q using that by (simp add: nth_append)
  have other: "m_node (store st ! q) \<noteq> v" if "q < ?len" for q
    using n a that unfolding wf_nodes_def by (metis option.distinct(1))
  from c have heap: "is_heap (astarnodecompare (store st)) (m_openlist st)"
    by (simp add: wf_costs_def)
  have "is_heap (astarnodecompare ?mem) (m_openlist st)"
    using heap lt by (subst is_heap_cong [of _ _ "store st"]) (simp_all add: nth_append)
  note push = push_heap_lists [OF std this, of ?len]
  from p cur have curc: "cur \<in> set (m_closedlist st)" by (simp add: wf_parents_def)
  have 1: "wf_nodes ?st'"
  proof -
    have "q < length (store ?st') \<and> m_node (store ?st' ! q) = m"
      if nq: "node_of ?st' m = Some q" for m q
    proof (cases "m = v")
      case True
      with nq have "q = ?len" by (simp add: node_of_def)
      with True show ?thesis by simp
    next
      case False
      with nq have "node_of st m = Some q" by (simp add: node_of_def)
      with n have "q < ?len" "m_node (store st ! q) = m" by (simp_all add: wf_nodes_def)
      then show ?thesis by (simp add: nth_append)
    qed
    moreover have "node_of ?st' (m_node (store ?st' ! q)) = Some q"
      if "q < length (store ?st')" for q
    proof -
      from that have "q < ?len \<or> q = ?len" by auto
      then show ?thesis
      proof
        assume q: "q < ?len"
        with n have "node_of st (m_node (store st ! q)) = Some q" by (simp add: wf_nodes_def)
        with q other [OF q] show ?thesis by (simp add: node_of_def nth_append)
      next
        assume "q = ?len"
        then show ?thesis by (simp add: node_of_def)
      qed
    qed
    ultimately show ?thesis unfolding wf_nodes_def by blast
  qed
  have 2: "wf_lists ?st'"
    using l lt push by (auto simp: wf_lists_def)
  have 3: "wf_flags ?st'"
    unfolding wf_flags_def
  proof (intro allI conjI)
    fix m
    have o: "(\<exists>q \<in> set (m_openlist st). m_node (?mem ! q) = m)
               = (\<exists>q \<in> set (m_openlist st). m_node (store st ! q) = m)"
      using lt old by (metis UnCI)
    have cl: "(\<exists>q \<in> set (m_closedlist st). m_node (?mem ! q) = m)
               = (\<exists>q \<in> set (m_closedlist st). m_node (store st ! q) = m)"
      using lt old by (metis UnCI)
    show "m_onopen (m_helperlist ?st' m)
            = (\<exists>q \<in> set (m_openlist ?st'). m_node (store ?st' ! q) = m)"
      using f o by (cases "m = v") (auto simp: push wf_flags_def)
    show "m_onclosed (m_helperlist ?st' m)
            = (\<exists>q \<in> set (m_closedlist ?st'). m_node (store ?st' ! q) = m)"
      using f cl by (cases "m = v") (simp_all add: wf_flags_def)
  qed
  have 4: "wf_costs ?st'"
    unfolding wf_costs_def
  proof (intro conjI allI impI)
    fix q assume "q < length (store ?st')"
    then have "q < ?len \<or> q = ?len" by auto
    then show "m_f (store ?st' ! q) = m_g (store ?st' ! q) + m_h (store ?st' ! q)"
      using c by (auto simp: wf_costs_def nth_append)
  next
    show "is_heap (astarnodecompare (store ?st')) (m_openlist ?st')"
      using push(3) by simp
  qed
  have 5: "wf_parents ?st'"
    unfolding wf_parents_def
  proof (intro conjI allI impI)
    fix q r assume q: "q < length (store ?st')" and r: "m_parent (store ?st' ! q) = Some r"
    from q have q': "q < ?len \<or> q = ?len" by auto
    then show "r \<in> set (m_closedlist ?st')"
      using r p curc by (auto simp: wf_parents_def nth_append)
    assume "q \<in> set (m_closedlist ?st')"
    with lt have "q < ?len" by auto
    then show "precedes (m_closedlist ?st') r q"
      using r p \<open>q \<in> set (m_closedlist ?st')\<close> by (simp add: wf_parents_def nth_append)
  next
    fix c assume "m_currentnode ?st' = Some c"
    then show "c \<in> set (m_closedlist ?st')" using p by (simp add: wf_parents_def)
  qed
  from 1 2 3 4 5 show ?thesis by (simp add: wf_search_def)
qed

lemma wf_search_AddNeighbor:
  assumes "std_heap ops" "wf_search st" "AddNeighbor ops st v c = Some st'"
  shows "wf_search st'"
  using assms(3)
proof (cases rule: AddNeighbor_cases)
  case closed
  with assms(2) show ?thesis by simp
next
  case (same cur a)
  with assms(2) show ?thesis by (simp add: wf_search_astaropen)
next
  case (better cur a)
  from wf_search_better [OF assms(1,2) better(2,3,1), where g = "m_g (store st ! cur) + c"
      and x = "Some a"]
  show ?thesis by (simp add: better(5))
next
  case (new cur)
  from wf_search_new [OF assms(1,2) new(2,3,1), where g = "m_g (store st ! cur) + c"
      and h = "m_destinationcost st v (m_goal st)" and x = None]
  show ?thesis by (simp add: new(4) add.assoc)
qed

lemma wf_search_AddNeighbors:
  assumes "std_heap ops" "wf_search st" "AddNeighbors ops st ncs = Some st'"
  shows "wf_search st'"
  using assms(2,3)
proof (induction ncs arbitrary: st)
  case Nil
  then show ?case by simp
next
  case (Cons nc ncs)
  obtain v c where nc: "nc = (v, c)" by (cases nc)
  from Cons.prems(2) obtain st1 where 1: "AddNeighbor ops st v c = Some st1"
    and 2: "AddNeighbors ops st1 ncs = Some st'"
    by (auto simp: nc split: option.splits)
  from Cons.IH [OF wf_search_AddNeighbor [OF assms(1) Cons.prems(1) 1] 2] show ?case .
qed

lemma searching_wf:
  assumes "std_heap ops" "searching ops st"
  shows "wf_search st"
  using assms(2)
proof (induction rule: searching.induct)
  case (start st start goal destinationcost getneighbors s nb)
  show ?case by (rule wf_search_start [OF assms(1)])
next
  case (close st)
  then show ?case by (simp add: wf_search_close_front [OF assms(1)])
next
  case (relax st neighbor movecost st')
  then show ?case by (simp add: wf_search_AddNeighbor [OF assms(1)])
qed

subsection \<open>Open, closed, undiscovered\<close>

lemma undiscovered_iff:
  assumes "wf_search st"
  shows "undiscovered st n = (node_of st n = None)"
proof
  assume "undiscovered st n" then show "node_of st n = None" by (simp add: undiscovered_def)
next
  assume none: "node_of st n = None"
  from assms have n: "wf_nodes st" and l: "wf_lists st" and f: "wf_flags st"
    by (simp_all add: wf_search_def)
  have no: "m_node (store st ! p) \<noteq> n" if "p < length (store st)" for p
    using n none that unfolding wf_nodes_def by (metis option.distinct(1))
  from l have lt: "\<forall>q \<in> set (m_openlist st) \<union> set (m_closedlist st). q < length (store st)"
    unfolding wf_lists_def by blast
  have "n \<notin> m_node ` set (store st)"
  proof
    assume "n \<in> m_node ` set (store st)"
    then obtain x where x: "x \<in> set (store st)" "m_node x = n" by auto
    then obtain p where "p < length (store st)" "store st ! p = x"
      by (auto simp: in_set_conv_nth)
    with no [of p] x(2) show False by simp
  qed
  moreover have "\<not> m_onopen (m_helperlist st n)" "\<not> m_onclosed (m_helperlist st n)"
    using f no lt unfolding wf_flags_def by auto
  ultimately show "undiscovered st n" using none by (simp add: undiscovered_def)
qed

lemma open_closed_iff:
  assumes "wf_search st"
  shows "is_open st n = (\<exists>p. node_of st n = Some p \<and> p \<in> set (m_openlist st))"
    and "is_closed st n = (\<exists>p. node_of st n = Some p \<and> p \<in> set (m_closedlist st))"
proof -
  from assms have n: "wf_nodes st" and l: "wf_lists st" and f: "wf_flags st"
    by (simp_all add: wf_search_def)
  from l have lt: "\<forall>q \<in> set (m_openlist st) \<union> set (m_closedlist st). q < length (store st)"
    and dj: "set (m_openlist st) \<inter> set (m_closedlist st) = {}"
    unfolding wf_lists_def by auto
  have flags: "m_onopen (m_helperlist st n) = (p \<in> set (m_openlist st))"
    "m_onclosed (m_helperlist st n) = (p \<in> set (m_closedlist st))"
    if p: "node_of st n = Some p" for p
  proof -
    from n p have pl: "p < length (store st)" and pn: "m_node (store st ! p) = n"
      by (simp_all add: wf_nodes_def)
    have only: "q = p" if "q < length (store st)" "m_node (store st ! q) = n" for q
      using node_of_inj [OF n that(1) pl] that(2) pn by simp
    show "m_onopen (m_helperlist st n) = (p \<in> set (m_openlist st))"
      using f lt only pn unfolding wf_flags_def by (metis UnCI)
    show "m_onclosed (m_helperlist st n) = (p \<in> set (m_closedlist st))"
      using f lt only pn unfolding wf_flags_def by (metis UnCI)
  qed
  show "is_open st n = (\<exists>p. node_of st n = Some p \<and> p \<in> set (m_openlist st))"
    unfolding is_open_def using flags dj by (metis disjoint_iff)
  show "is_closed st n = (\<exists>p. node_of st n = Some p \<and> p \<in> set (m_closedlist st))"
    unfolding is_closed_def using flags dj by (metis disjoint_iff)
qed

lemma tri_state:
  assumes "wf_search st"
  shows "(undiscovered st n \<or> is_open st n \<or> is_closed st n) \<and>
         \<not> (undiscovered st n \<and> is_open st n) \<and>
         \<not> (undiscovered st n \<and> is_closed st n) \<and>
         \<not> (is_open st n \<and> is_closed st n)"
proof -
  from assms have n: "wf_nodes st" and l: "wf_lists st" by (simp_all add: wf_search_def)
  from l have un: "set (m_openlist st) \<union> set (m_closedlist st) = {..<length (store st)}"
    and dj: "set (m_openlist st) \<inter> set (m_closedlist st) = {}"
    unfolding wf_lists_def by auto
  show ?thesis
  proof (cases "node_of st n")
    case None
    then show ?thesis
      by (simp add: undiscovered_iff [OF assms] open_closed_iff [OF assms])
  next
    case (Some p)
    with n have "p < length (store st)" by (simp add: wf_nodes_def)
    with un have "p \<in> set (m_openlist st) \<or> p \<in> set (m_closedlist st)" by blast
    moreover from dj have "\<not> (p \<in> set (m_openlist st) \<and> p \<in> set (m_closedlist st))" by blast
    ultimately show ?thesis using Some
      by (auto simp: undiscovered_iff [OF assms] open_closed_iff [OF assms])
  qed
qed

subsection \<open>Closed nodes are frozen\<close>

lemma keeps_closed_refl: "keeps_closed st st"
  by (simp add: keeps_closed_def)

lemma keeps_closed_trans: "keeps_closed st st1 \<Longrightarrow> keeps_closed st1 st2 \<Longrightarrow> keeps_closed st st2"
  unfolding keeps_closed_def by metis

lemma keeps_closed_close_front: "keeps_closed st (close_front ops st)"
  by (simp add: keeps_closed_def close_front_fields)

lemma keeps_closed_AddNeighbor:
  assumes "wf_search st" "AddNeighbor ops st v c = Some st'"
  shows "keeps_closed st st'"
proof -
  from assms(1) have n: "wf_nodes st" and l: "wf_lists st" and f: "wf_flags st"
    by (simp_all add: wf_search_def)
  from l have lt: "\<forall>q \<in> set (m_closedlist st). q < length (store st)"
    unfolding wf_lists_def by blast
  from assms(2) show ?thesis
  proof (cases rule: AddNeighbor_cases)
    case closed
    then show ?thesis by (simp add: keeps_closed_refl)
  next
    case (same cur a)
    then show ?thesis by (simp add: keeps_closed_def node_of_def)
  next
    case (better cur a)
    from not_closed_node [OF f n better(3,1)] have "a \<notin> set (m_closedlist st)" .
    then have "\<forall>q \<in> set (m_closedlist st). q \<noteq> a" by blast
    then show ?thesis by (auto simp: keeps_closed_def node_of_def better(5))
  next
    case (new cur)
    have "node_of st' m = Some p" if "node_of st m = Some p" for m p
      using that new(3) by (cases "m = v") (simp_all add: node_of_def new(4))
    then show ?thesis using lt by (simp add: keeps_closed_def new(4) nth_append)
  qed
qed

lemma search_steps_searching:
  assumes "searching ops st" "search_steps ops st st'"
  shows "searching ops st'"
  using assms(2,1)
  by (induction rule: search_steps.induct) (auto intro: searching.close searching.relax)

lemma search_steps_keeps_closed:
  assumes "std_heap ops" "searching ops st" "search_steps ops st st'"
  shows "keeps_closed st st'"
  using assms(3)
proof (induction rule: search_steps.induct)
  case here
  show ?case by (rule keeps_closed_refl)
next
  case (close st1)
  from keeps_closed_trans [OF close(3) keeps_closed_close_front] show ?case .
next
  case (relax st1 neighbor movecost st2)
  from search_steps_searching [OF assms(2) relax(1)] have "wf_search st1"
    by (rule searching_wf [OF assms(1)])
  from keeps_closed_trans [OF relax(3) keeps_closed_AddNeighbor [OF this relax(2)]]
  show ?case .
qed

text \<open>
  Claim C6. At every point of a search, each state is in exactly one of the three
  conditions undiscovered, open and closed. For a closed state, \<^verbatim>\<open>AddNeighbor\<close> returns
  at once and leaves the engine as it was; and in every later state of the search the
  state is still closed, its node is the same and has the same contents (\<open>g\<close>, \<open>f\<close>,
  parent), no other node stands for the state, and the node is not on the open list.
\<close>

theorem closed_never_reopened:
  assumes "std_heap ops" "searching ops st"
  shows "(undiscovered st n \<or> is_open st n \<or> is_closed st n) \<and>
         \<not> (undiscovered st n \<and> is_open st n) \<and>
         \<not> (undiscovered st n \<and> is_closed st n) \<and>
         \<not> (is_open st n \<and> is_closed st n) \<and>
         (is_closed st n \<longrightarrow> AddNeighbor ops st n movecost = Some st) \<and>
         (\<forall>st'. is_closed st n \<and> search_steps ops st st' \<longrightarrow>
            is_closed st' n \<and> node_of st' n = node_of st n \<and>
            (\<forall>p. node_of st n = Some p \<longrightarrow>
               store st' ! p = store st ! p \<and> p \<notin> set (m_openlist st')) \<and>
            (\<forall>q < length (store st'). m_node (store st' ! q) = n \<longrightarrow> node_of st n = Some q))"
proof -
  from searching_wf [OF assms] have wf: "wf_search st" .
  have a: "AddNeighbor ops st n movecost = Some st" if "is_closed st n"
    using that by (auto simp: is_closed_def AddNeighbor_def)
  have b: "is_closed st' n \<and> node_of st' n = node_of st n \<and>
            (\<forall>p. node_of st n = Some p \<longrightarrow>
               store st' ! p = store st ! p \<and> p \<notin> set (m_openlist st')) \<and>
            (\<forall>q < length (store st'). m_node (store st' ! q) = n \<longrightarrow> node_of st n = Some q)"
    if cl: "is_closed st n" and steps: "search_steps ops st st'" for st'
  proof -
    from cl obtain p where p: "node_of st n = Some p" "p \<in> set (m_closedlist st)"
      unfolding is_closed_def by blast
    from search_steps_keeps_closed [OF assms steps] p
    have p': "node_of st' n = Some p" "p \<in> set (m_closedlist st')" "store st' ! p = store st ! p"
      unfolding keeps_closed_def by blast+
    from searching_wf [OF assms(1) search_steps_searching [OF assms(2) steps]]
    have wf': "wf_search st'" .
    from p' have c': "is_closed st' n" by (auto simp: open_closed_iff [OF wf'])
    then have "p \<notin> set (m_openlist st')" using p'(1) by (auto simp: is_closed_def)
    moreover have "node_of st n = Some q" if "q < length (store st')" "m_node (store st' ! q) = n" for q
    proof -
      from wf' that have "node_of st' n = Some q" by (auto simp: wf_search_def wf_nodes_def)
      with p'(1) p(1) show ?thesis by simp
    qed
    ultimately show ?thesis using c' p p' by simp
  qed
  from tri_state [OF wf, of n] a b show ?thesis by blast
qed

theorem closed_never_reopened_witness:
  "std_heap sorting_heap \<and> searching sorting_heap line_closed \<and>
   is_closed line_closed 0 \<and> \<not> is_open line_closed 0 \<and> \<not> undiscovered line_closed 0 \<and>
   AddNeighbor sorting_heap line_closed 0 1 = Some line_closed \<and>
   (\<exists>st'. AddNeighbor sorting_heap line_closed 1 1 = Some st' \<and>
      is_closed st' 0 \<and> node_of st' 0 = Some 0 \<and>
      store st' ! 0 = store line_closed ! 0 \<and> 0 \<notin> set (m_openlist st'))"
proof -
  have s: "searching sorting_heap line_closed"
    unfolding line_closed_def
    by (rule searching.close [OF searching.start]) (simp add: InitializeStep_def Let_def sorting_heap_def heap_sort_def)
  have h: "le_m_node (m_helperlist line_closed 0) = Some 0" "m_closedlist line_closed = [0]"
    "m_openlist line_closed = []" "m_onclosed (m_helperlist line_closed 0)"
    "\<not> m_onopen (m_helperlist line_closed 0)"
    by code_simp+
  then have c: "is_closed line_closed 0" by (simp add: is_closed_def node_of_def)
  have "AddNeighbor sorting_heap line_closed 1 1 \<noteq> None" by code_simp
  then obtain st' where a: "AddNeighbor sorting_heap line_closed 1 1 = Some st'" by blast
  from search_steps.relax [OF search_steps.here a]
  have st: "search_steps sorting_heap line_closed st'" .
  from closed_never_reopened [OF std_heap_sorting_heap s, of 0 1] c st a h(1) std_heap_sorting_heap s
  show ?thesis by (auto simp: node_of_def)
qed

subsection \<open>Paths\<close>

lemma is_path_append:
  "is_path nb u es v \<Longrightarrow> is_path nb v es' w \<Longrightarrow> is_path nb u (es @ es') w"
  by (induction es arbitrary: u) auto

lemma is_path_snoc:
  "is_path nb u es v \<Longrightarrow> (w, c) \<in> set (nb v) \<Longrightarrow> is_path nb u (es @ [(w, c)]) w"
  by (rule is_path_append) simp_all

lemma path_cost_append: "path_cost (es @ es') = path_cost es + path_cost es'"
  by (simp add: path_cost_def)

lemma path_cost_nonneg:
  "nonneg_costs nb \<Longrightarrow> is_path nb u es v \<Longrightarrow> 0 \<le> path_cost es"
proof (induction es arbitrary: u)
  case Nil
  then show ?case by (simp add: path_cost_def)
next
  case (Cons e es)
  obtain w c where e: "e = (w, c)" by (cases e)
  from Cons.prems(2) have 1: "(w, c) \<in> set (nb u)" and 2: "is_path nb w es v" by (simp_all add: e)
  from Cons.prems(1) 1 have "0 \<le> c" unfolding nonneg_costs_def by force
  with Cons.IH [OF Cons.prems(1) 2] show ?case by (simp add: e path_cost_def)
qed

subsection \<open>One expansion\<close>

lemma AddNeighbor_relaxed:
  assumes wf: "wf_search st" and cur: "m_currentnode st = Some cur"
    and a: "AddNeighbor ops st v c = Some st'"
  shows "relaxed cur [(v, c)] st st'"
proof -
  from wf have n: "wf_nodes st" and l: "wf_lists st" and f: "wf_flags st"
    by (simp_all add: wf_search_def)
  from a show ?thesis
  proof (cases rule: AddNeighbor_cases)
    case closed
    from closed(1) f obtain p where p: "p \<in> set (m_closedlist st)" "m_node (store st ! p) = v"
      unfolding wf_flags_def by blast
    from p(1) l have pl: "p < length (store st)" unfolding wf_lists_def by blast
    with n p(2) have "node_of st v = Some p" unfolding wf_nodes_def by blast
    with pl p(1) show ?thesis by (auto simp: relaxed_def closed(2))
  next
    case (same cur' a)
    with cur have [simp]: "cur' = cur" by simp
    from n same(3) have "a < length (store st)" by (simp add: wf_nodes_def)
    with same(3,4) show ?thesis by (auto simp: relaxed_def same(5) node_of_def)
  next
    case (better cur' a)
    with cur have [simp]: "cur' = cur" by simp
    from n better(3) have al: "a < length (store st)" and an: "m_node (store st ! a) = v"
      by (simp_all add: wf_nodes_def)
    from not_closed_node [OF f n better(3,1)] have nc: "a \<notin> set (m_closedlist st)" .
    have 1: "\<forall>p < length (store st).
         m_node (store st' ! p) = m_node (store st ! p) \<and>
         m_h (store st' ! p) = m_h (store st ! p) \<and>
         m_g (store st' ! p) \<le> m_g (store st ! p) \<and>
         (store st' ! p = store st ! p \<or>
          p \<notin> set (m_closedlist st) \<and> m_parent (store st' ! p) = Some cur \<and>
          (m_node (store st ! p), m_g (store st' ! p) - m_g (store st ! cur)) \<in> set [(v, c)])"
    proof (intro allI impI)
      fix p assume "p < length (store st)"
      then show "m_node (store st' ! p) = m_node (store st ! p) \<and>
         m_h (store st' ! p) = m_h (store st ! p) \<and>
         m_g (store st' ! p) \<le> m_g (store st ! p) \<and>
         (store st' ! p = store st ! p \<or>
          p \<notin> set (m_closedlist st) \<and> m_parent (store st' ! p) = Some cur \<and>
          (m_node (store st ! p), m_g (store st' ! p) - m_g (store st ! cur)) \<in> set [(v, c)])"
        using better(4) nc an by (cases "p = a") (simp_all add: better(5))
    qed
    have 2: "\<exists>p < length (store st'). node_of st' v = Some p \<and>
           (p \<notin> set (m_closedlist st) \<longrightarrow> m_g (store st' ! p) \<le> m_g (store st ! cur) + c)"
      using al better(3) by (intro exI [of _ a]) (simp add: better(5) node_of_def)
    from 1 2 show ?thesis unfolding relaxed_def by (simp add: better(5) node_of_def)
  next
    case (new cur')
    with cur have [simp]: "cur' = cur" by simp
    have 3: "node_of st' n = Some p" if "node_of st n = Some p" for n p
      using that new(3) by (cases "n = v") (simp_all add: new(4) node_of_def)
    have 2: "\<exists>p < length (store st'). node_of st' v = Some p \<and>
           (p \<notin> set (m_closedlist st) \<longrightarrow> m_g (store st' ! p) \<le> m_g (store st ! cur) + c)"
      by (intro exI [of _ "length (store st)"]) (simp add: new(4) node_of_def)
    have 4: "\<forall>p < length (store st'). length (store st) \<le> p \<longrightarrow>
         m_parent (store st' ! p) = Some cur \<and>
         (m_node (store st' ! p), m_g (store st' ! p) - m_g (store st ! cur)) \<in> set [(v, c)] \<and>
         m_h (store st' ! p) = m_destinationcost st (m_node (store st' ! p)) (m_goal st)"
    proof (intro allI impI)
      fix p assume "p < length (store st')" "length (store st) \<le> p"
      then have "p = length (store st)" by (simp add: new(4))
      then show "m_parent (store st' ! p) = Some cur \<and>
         (m_node (store st' ! p), m_g (store st' ! p) - m_g (store st ! cur)) \<in> set [(v, c)] \<and>
         m_h (store st' ! p) = m_destinationcost st (m_node (store st' ! p)) (m_goal st)"
        by (simp add: new(4))
    qed
    have 1: "\<forall>p < length (store st). store st' ! p = store st ! p"
      by (simp add: new(4) nth_append)
    from 1 2 3 4 show ?thesis unfolding relaxed_def by (simp add: new(4))
  qed
qed

lemma relaxed_refl: "relaxed cur [] st st"
  by (simp add: relaxed_def)

lemma relaxedD:
  assumes "relaxed cur ncs st st'"
  shows "m_closedlist st' = m_closedlist st" "m_currentnode st' = m_currentnode st"
    "m_goal st' = m_goal st" "m_destinationcost st' = m_destinationcost st"
    "length (store st) \<le> length (store st')"
    "\<And>p. p < length (store st) \<Longrightarrow> m_node (store st' ! p) = m_node (store st ! p)"
    "\<And>p. p < length (store st) \<Longrightarrow> m_h (store st' ! p) = m_h (store st ! p)"
    "\<And>p. p < length (store st) \<Longrightarrow> m_g (store st' ! p) \<le> m_g (store st ! p)"
    "\<And>p. p < length (store st) \<Longrightarrow> store st' ! p = store st ! p \<or>
          p \<notin> set (m_closedlist st) \<and> m_parent (store st' ! p) = Some cur \<and>
          (m_node (store st ! p), m_g (store st' ! p) - m_g (store st ! cur)) \<in> set ncs"
    "\<And>p. p < length (store st') \<Longrightarrow> length (store st) \<le> p \<Longrightarrow>
         m_parent (store st' ! p) = Some cur \<and>
         (m_node (store st' ! p), m_g (store st' ! p) - m_g (store st ! cur)) \<in> set ncs \<and>
         m_h (store st' ! p) = m_destinationcost st (m_node (store st' ! p)) (m_goal st)"
    "\<And>n p. node_of st n = Some p \<Longrightarrow> node_of st' n = Some p"
    "\<And>vc. vc \<in> set ncs \<Longrightarrow> \<exists>p < length (store st'). node_of st' (fst vc) = Some p \<and>
           (p \<notin> set (m_closedlist st) \<longrightarrow>
              m_g (store st' ! p) \<le> m_g (store st ! cur) + snd vc)"
  using assms unfolding relaxed_def by blast+

lemma relaxed_closed_same:
  assumes "relaxed cur ncs st st'" "p \<in> set (m_closedlist st)" "p < length (store st)"
  shows "store st' ! p = store st ! p"
  using relaxedD(9) [OF assms(1,3)] assms(2) by blast

lemma relaxed_Cons:
  assumes r1: "relaxed cur [(v, c)] st st1" and r2: "relaxed cur ncs st1 st2"
    and cc: "cur \<in> set (m_closedlist st)" and cl: "cur < length (store st)"
  shows "relaxed cur ((v, c) # ncs) st st2"
proof -
  note a = relaxedD [OF r1] and b = relaxedD [OF r2]
  from relaxed_closed_same [OF r1 cc cl] have gc: "m_g (store st1 ! cur) = m_g (store st ! cur)"
    by simp
  have old: "m_node (store st2 ! p) = m_node (store st ! p) \<and>
         m_h (store st2 ! p) = m_h (store st ! p) \<and>
         m_g (store st2 ! p) \<le> m_g (store st ! p) \<and>
         (store st2 ! p = store st ! p \<or>
          p \<notin> set (m_closedlist st) \<and> m_parent (store st2 ! p) = Some cur \<and>
          (m_node (store st ! p), m_g (store st2 ! p) - m_g (store st ! cur))
             \<in> set ((v, c) # ncs))"
    if p: "p < length (store st)" for p
  proof -
    from p a(5) have p1: "p < length (store st1)" by simp
    from a(6) [OF p] b(6) [OF p1] have 1: "m_node (store st2 ! p) = m_node (store st ! p)" by simp
    from a(7) [OF p] b(7) [OF p1] have 2: "m_h (store st2 ! p) = m_h (store st ! p)" by simp
    from a(8) [OF p] b(8) [OF p1] have 3: "m_g (store st2 ! p) \<le> m_g (store st ! p)" by simp
    from b(9) [OF p1] have 4: "store st2 ! p = store st ! p \<or>
          p \<notin> set (m_closedlist st) \<and> m_parent (store st2 ! p) = Some cur \<and>
          (m_node (store st ! p), m_g (store st2 ! p) - m_g (store st ! cur))
             \<in> set ((v, c) # ncs)"
    proof
      assume e: "store st2 ! p = store st1 ! p"
      from a(9) [OF p] show ?thesis by (auto simp: e)
    next
      assume "p \<notin> set (m_closedlist st1) \<and> m_parent (store st2 ! p) = Some cur \<and>
          (m_node (store st1 ! p), m_g (store st2 ! p) - m_g (store st1 ! cur)) \<in> set ncs"
      then show ?thesis by (simp add: a(1) a(6) [OF p] gc)
    qed
    from 1 2 3 4 show ?thesis by blast
  qed
  have new: "m_parent (store st2 ! p) = Some cur \<and>
         (m_node (store st2 ! p), m_g (store st2 ! p) - m_g (store st ! cur))
            \<in> set ((v, c) # ncs) \<and>
         m_h (store st2 ! p) = m_destinationcost st (m_node (store st2 ! p)) (m_goal st)"
    if p: "p < length (store st2)" "length (store st) \<le> p" for p
  proof (cases "p < length (store st1)")
    case True
    note n1 = a(10) [OF True p(2)]
    from b(9) [OF True] show ?thesis
    proof
      assume e: "store st2 ! p = store st1 ! p"
      with n1 show ?thesis by auto
    next
      assume "p \<notin> set (m_closedlist st1) \<and> m_parent (store st2 ! p) = Some cur \<and>
          (m_node (store st1 ! p), m_g (store st2 ! p) - m_g (store st1 ! cur)) \<in> set ncs"
      with n1 b(6) [OF True] b(7) [OF True] show ?thesis by (simp add: gc)
    qed
  next
    case False
    then have "length (store st1) \<le> p" by simp
    from b(10) [OF p(1) this] show ?thesis by (simp add: gc a(3,4))
  qed
  have cov: "\<exists>p < length (store st2). node_of st2 (fst vc) = Some p \<and>
           (p \<notin> set (m_closedlist st) \<longrightarrow>
              m_g (store st2 ! p) \<le> m_g (store st ! cur) + snd vc)"
    if vc: "vc \<in> set ((v, c) # ncs)" for vc
  proof (cases "vc \<in> set ncs")
    case True
    from b(12) [OF True] show ?thesis by (simp add: gc a(1))
  next
    case False
    with vc have e: "vc = (v, c)" by simp
    from a(12) [of "(v, c)"] obtain p where p: "p < length (store st1)"
      "node_of st1 v = Some p"
      "p \<notin> set (m_closedlist st) \<longrightarrow> m_g (store st1 ! p) \<le> m_g (store st ! cur) + c"
      by auto
    from b(8) [OF p(1)] p(3) have "p \<notin> set (m_closedlist st) \<longrightarrow>
        m_g (store st2 ! p) \<le> m_g (store st ! cur) + c" by auto
    moreover from p(1) b(5) have "p < length (store st2)" by simp
    ultimately show ?thesis using b(11) [OF p(2)] by (auto simp: e)
  qed
  from a(5) b(5) have "length (store st) \<le> length (store st2)" by simp
  moreover have "\<forall>n p. node_of st n = Some p \<longrightarrow> node_of st2 n = Some p"
    using a(11) b(11) by blast
  ultimately show ?thesis
    unfolding relaxed_def using old new cov by (simp add: a(1,2,3,4) b(1,2,3,4))
qed

lemma AddNeighbor_currentnode:
  "AddNeighbor ops st v c = Some st' \<Longrightarrow> m_currentnode st' = m_currentnode st"
  by (auto simp: AddNeighbor_def Let_def split: if_splits option.splits)

lemma AddNeighbors_defined:
  assumes "m_currentnode st = Some cur"
  shows "\<exists>st'. AddNeighbors ops st ncs = Some st'"
  using assms
proof (induction ncs arbitrary: st)
  case Nil
  show ?case by simp
next
  case (Cons nc ncs)
  obtain v c where nc: "nc = (v, c)" by (cases nc)
  from AddNeighbor_defined [OF Cons.prems] obtain st1 where
    1: "AddNeighbor ops st v c = Some st1" by blast
  from AddNeighbor_currentnode [OF 1] Cons.prems have "m_currentnode st1 = Some cur" by simp
  from Cons.IH [OF this] show ?case by (simp add: nc 1)
qed

lemma AddNeighbors_relaxed:
  assumes std: "std_heap ops"
    and wf: "wf_search st" and cur: "m_currentnode st = Some cur"
    and a: "AddNeighbors ops st ncs = Some st'"
  shows "relaxed cur ncs st st'"
  using wf cur a
proof (induction ncs arbitrary: st)
  case Nil
  then show ?case by (simp add: relaxed_refl)
next
  case (Cons nc ncs)
  obtain v c where nc: "nc = (v, c)" by (cases nc)
  from Cons.prems(3) obtain st1 where 1: "AddNeighbor ops st v c = Some st1"
    and 2: "AddNeighbors ops st1 ncs = Some st'"
    by (auto simp: nc split: option.splits)
  note r1 = AddNeighbor_relaxed [OF Cons.prems(1,2) 1]
  from relaxedD(2) [OF r1] Cons.prems(2) have c1: "m_currentnode st1 = Some cur" by simp
  note r2 = Cons.IH [OF wf_search_AddNeighbor [OF std Cons.prems(1) 1] c1 2]
  from Cons.prems(1,2) have cc: "cur \<in> set (m_closedlist st)"
    by (simp add: wf_search_def wf_parents_def)
  with Cons.prems(1) have "cur < length (store st)"
    unfolding wf_search_def wf_lists_def by blast
  from relaxed_Cons [OF r1 r2 cc this] show ?case by (simp add: nc)
qed

subsection \<open>The search tree\<close>

lemma wf_graph_start:
  "wf_graph nb dc start goal
     ((InitializeStep ops st start goal dc nb')\<lparr> m_start := s, m_getneighbors := nb'' \<rparr>)"
  by (simp add: wf_graph_def InitializeStep_def Let_def)

lemma wf_graph_close_front:
  assumes wf: "wf_search st" and g: "wf_graph nb dc start goal st" and ne: "m_openlist st \<noteq> []"
  shows "wf_graph nb dc start goal (close_front ops st)"
proof -
  from wf have l: "wf_lists st" by (simp add: wf_search_def)
  have "0 \<in> set (m_closedlist (close_front ops st))"
  proof (cases "0 \<in> set (m_closedlist st)")
    case True
    then show ?thesis by (simp add: close_front_fields)
  next
    case False
    with g have "length (store st) = 1" by (auto simp: wf_graph_def)
    with wf_hd_open(2) [OF l ne] have "hd (m_openlist st) = 0" by simp
    then show ?thesis by (simp add: close_front_fields)
  qed
  with g show ?thesis by (simp add: wf_graph_def close_front_fields)
qed

lemma wf_graph_relaxed:
  assumes wf: "wf_search st" and g: "wf_graph nb dc start goal st"
    and cc: "cur \<in> set (m_closedlist st)"
    and r: "relaxed cur ncs st st'"
    and sub: "set ncs \<subseteq> set (nb (m_node (store st ! cur)))"
  shows "wf_graph nb dc start goal st'"
proof -
  note a = relaxedD [OF r]
  from wf have l: "wf_lists st" and pa: "wf_parents st" by (simp_all add: wf_search_def)
  from l have lt: "q < length (store st)" if "q \<in> set (m_closedlist st)" for q
    using that unfolding wf_lists_def by blast
  have same: "store st' ! q = store st ! q" if "q \<in> set (m_closedlist st)" for q
    using relaxed_closed_same [OF r that lt [OF that]] .
  from g cc have z: "0 \<in> set (m_closedlist st)" by (auto simp: wf_graph_def)
  have tree: "m_h (store st' ! p) = dc (m_node (store st' ! p)) goal \<and>
         (\<exists>q. m_parent (store st' ! p) = Some q \<and>
              (m_node (store st' ! p), m_g (store st' ! p) - m_g (store st' ! q))
                 \<in> set (nb (m_node (store st' ! q))))"
    if p: "p < length (store st')" "0 < p" for p
  proof (cases "p < length (store st)")
    case True
    from g True p(2) obtain q where h: "m_h (store st ! p) = dc (m_node (store st ! p)) goal"
      and q: "m_parent (store st ! p) = Some q"
        "(m_node (store st ! p), m_g (store st ! p) - m_g (store st ! q))
           \<in> set (nb (m_node (store st ! q)))"
      unfolding wf_graph_def by blast
    from pa True q(1) have qc: "q \<in> set (m_closedlist st)" unfolding wf_parents_def by blast
    from a(9) [OF True] show ?thesis
    proof
      assume "store st' ! p = store st ! p"
      with h q same [OF qc] show ?thesis by simp
    next
      assume "p \<notin> set (m_closedlist st) \<and> m_parent (store st' ! p) = Some cur \<and>
          (m_node (store st ! p), m_g (store st' ! p) - m_g (store st ! cur)) \<in> set ncs"
      with sub h a(6) [OF True] a(7) [OF True] same [OF cc] show ?thesis by auto
    qed
  next
    case False
    then have "length (store st) \<le> p" by simp
    from a(10) [OF p(1) this] sub g same [OF cc] show ?thesis
      by (auto simp: wf_graph_def)
  qed
  from g have "0 < length (store st)" unfolding wf_graph_def by blast
  from this a(5) have "0 < length (store st')" by (rule less_le_trans)
  with g same [OF z] z tree show ?thesis
    unfolding wf_graph_def by (simp add: a(1,3,4))
qed

lemma AddNeighbors_getneighbors:
  "AddNeighbors ops st ncs = Some st' \<Longrightarrow> m_getneighbors st' = m_getneighbors st"
proof (induction ncs arbitrary: st)
  case Nil
  then show ?case by simp
next
  case (Cons nc ncs)
  obtain v c where nc: "nc = (v, c)" by (cases nc)
  from Cons.prems obtain st1 where 1: "AddNeighbor ops st v c = Some st1"
    and 2: "AddNeighbors ops st1 ncs = Some st'"
    by (auto simp: nc split: option.splits)
  from 1 have "m_getneighbors st1 = m_getneighbors st"
    by (auto simp: AddNeighbor_def Let_def split: if_splits option.splits)
  with Cons.IH [OF 2] show ?case by simp
qed

text \<open>One iteration of the loop that expands the front node.\<close>

lemma expand_inv:
  assumes std: "std_heap ops" and wf: "wf_search st" and g: "wf_graph nb dc start goal st"
    and ne: "m_openlist st \<noteq> []"
    and a: "AddNeighbors ops (close_front ops st) (nb (front_node st)) = Some st2"
  shows "wf_search st2" "wf_graph nb dc start goal st2"
    "relaxed (hd (m_openlist st)) (nb (front_node st)) (close_front ops st) st2"
proof -
  note wf1 = wf_search_close_front [OF std wf ne]
  note g1 = wf_graph_close_front [OF wf g ne, of ops]
  show "wf_search st2" by (rule wf_search_AddNeighbors [OF std wf1 a])
  show r: "relaxed (hd (m_openlist st)) (nb (front_node st)) (close_front ops st) st2"
    by (rule AddNeighbors_relaxed [OF std wf1 _ a]) (simp add: close_front_fields)
  show "wf_graph nb dc start goal st2"
    by (rule wf_graph_relaxed [OF wf1 g1 _ r])
       (simp_all add: close_front_fields front_node_def)
qed

subsection \<open>The parent chain of a closed node\<close>

lemma parent_chain_Cons:
  "ps \<noteq> [] \<Longrightarrow> parent_chain mem (p # ps) = (m_parent (mem ! p) = Some (hd ps) \<and> parent_chain mem ps)"
  by (cases ps) simp_all

lemma closed_chain:
  assumes wf: "wf_search st" and g: "wf_graph nb dc start goal st"
    and p: "p \<in> set (m_closedlist st)"
  shows "\<exists>ps es. walk_parents (store st) (Some p) acc
                    = Some (None, acc @ map (\<lambda>p. m_node (store st ! p)) ps) \<and>
           ps \<noteq> [] \<and> hd ps = p \<and> parent_chain (store st) ps \<and>
           last (map (\<lambda>p. m_node (store st ! p)) ps) = start \<and>
           is_path nb start es (m_node (store st ! p)) \<and>
           rev (map (\<lambda>p. m_node (store st ! p)) ps) = start # map fst es \<and>
           m_g (store st ! p) = dc start goal + path_cost es"
proof -
  let ?cl = "m_closedlist st"
  let ?nd = "\<lambda>p. m_node (store st ! p)"
  from wf have l: "wf_lists st" and pa: "wf_parents st" by (simp_all add: wf_search_def)
  from l have d: "distinct ?cl" unfolding wf_lists_def by simp
  from l have lt: "q < length (store st)" if "q \<in> set ?cl" for q
    using that unfolding wf_lists_def by blast
  have "\<forall>acc. \<exists>ps es. walk_parents (store st) (Some (?cl ! i)) acc
                    = Some (None, acc @ map ?nd ps) \<and>
           ps \<noteq> [] \<and> hd ps = ?cl ! i \<and> parent_chain (store st) ps \<and>
           last (map ?nd ps) = start \<and>
           is_path nb start es (?nd (?cl ! i)) \<and>
           rev (map ?nd ps) = start # map fst es \<and>
           m_g (store st ! (?cl ! i)) = dc start goal + path_cost es"
    if "i < length ?cl" for i
    using that
  proof (induction i rule: less_induct)
    case (less i)
    let ?p = "?cl ! i"
    from less.prems have pc: "?p \<in> set ?cl" by simp
    note pl = lt [OF pc]
    show ?case
    proof (cases "m_parent (store st ! ?p)")
      case None
      have p0: "?p = 0"
      proof (rule ccontr)
        assume "?p \<noteq> 0"
        with g pl None show False unfolding wf_graph_def by force
      qed
      show ?thesis
      proof
        fix acc
        from g have "walk_parents (store st) (Some 0) acc = Some (None, acc @ map ?nd [0])"
          by (simp add: walk_parents_Some walk_parents_None wf_graph_def)
        moreover from g have "parent_chain (store st) [0]" "last (map ?nd [0]) = start"
          "is_path nb start [] (?nd 0)" "rev (map ?nd [0]) = start # map fst []"
          "m_g (store st ! 0) = dc start goal + path_cost []"
          by (simp_all add: wf_graph_def path_cost_def)
        ultimately show "\<exists>ps es. walk_parents (store st) (Some ?p) acc
                    = Some (None, acc @ map ?nd ps) \<and>
           ps \<noteq> [] \<and> hd ps = ?p \<and> parent_chain (store st) ps \<and>
           last (map ?nd ps) = start \<and>
           is_path nb start es (?nd ?p) \<and>
           rev (map ?nd ps) = start # map fst es \<and>
           m_g (store st ! ?p) = dc start goal + path_cost es"
          unfolding p0 by (intro exI [of _ "[0]"] exI [of _ "[]"]) simp
      qed
    next
      case (Some q)
      from pa pl Some pc have qc: "q \<in> set ?cl" and pr: "precedes ?cl q ?p"
        unfolding wf_parents_def by blast+
      from pr obtain i' j' where ij: "i' < j'" "j' < length ?cl" "?cl ! i' = q" "?cl ! j' = ?p"
        unfolding precedes_def by blast
      from d ij(2,4) less.prems have "j' = i" by (simp add: nth_eq_iff_index_eq)
      with ij have i': "i' < i" "i' < length ?cl" by simp_all
      have pn: "0 < ?p"
      proof (rule ccontr)
        assume "\<not> 0 < ?p"
        with g Some show False by (simp add: wf_graph_def)
      qed
      with g pl Some have e: "(?nd ?p, m_g (store st ! ?p) - m_g (store st ! q)) \<in> set (nb (?nd q))"
        unfolding wf_graph_def by force
      show ?thesis
      proof
        fix acc
        from less.IH [OF i'] ij(3) obtain ps es where
          w: "walk_parents (store st) (Some q) (acc @ [?nd ?p])
                = Some (None, (acc @ [?nd ?p]) @ map ?nd ps)"
          and ps: "ps \<noteq> []" "hd ps = q" "parent_chain (store st) ps" "last (map ?nd ps) = start"
          and es: "is_path nb start es (?nd q)" "rev (map ?nd ps) = start # map fst es"
            "m_g (store st ! q) = dc start goal + path_cost es"
          by blast
        let ?es = "es @ [(?nd ?p, m_g (store st ! ?p) - m_g (store st ! q))]"
        have 1: "walk_parents (store st) (Some ?p) acc = Some (None, acc @ map ?nd (?p # ps))"
          using w by (simp add: walk_parents_Some [of _ ?p] Some)
        have 2: "parent_chain (store st) (?p # ps)"
          using ps Some by (simp add: parent_chain_Cons)
        have 3: "last (map ?nd (?p # ps)) = start" using ps by simp
        have 4: "is_path nb start ?es (?nd ?p)" by (rule is_path_snoc [OF es(1) e])
        have 5: "rev (map ?nd (?p # ps)) = start # map fst ?es" using es(2) by simp
        have 6: "m_g (store st ! ?p) = dc start goal + path_cost ?es"
          using es(3) by (simp add: path_cost_append) (simp add: path_cost_def)
        from 1 2 3 4 5 6
        show "\<exists>ps es. walk_parents (store st) (Some ?p) acc
                    = Some (None, acc @ map ?nd ps) \<and>
           ps \<noteq> [] \<and> hd ps = ?p \<and> parent_chain (store st) ps \<and>
           last (map ?nd ps) = start \<and>
           is_path nb start es (?nd ?p) \<and>
           rev (map ?nd ps) = start # map fst es \<and>
           m_g (store st ! ?p) = dc start goal + path_cost es"
          by (intro exI [of _ "?p # ps"] exI [of _ ?es]) simp
      qed
    qed
  qed
  moreover from p obtain i where "i < length ?cl" "?cl ! i = p" by (auto simp: in_set_conv_nth)
  ultimately show ?thesis by blast
qed

text \<open>The reconstruction from the node just closed, when it stands for the goal.\<close>

lemma front_chain:
  assumes std: "std_heap ops" and wf: "wf_search st" and g: "wf_graph nb dc start goal st"
    and ne: "m_openlist st \<noteq> []" and fg: "front_node st = goal"
  shows "\<exists>path es. walk_parents (store st) (Some (hd (m_openlist st))) [] = Some (None, path) \<and>
           goal_to_start nb start goal (store st) path \<and>
           traces_path nb start goal path es \<and>
           m_g (store st ! hd (m_openlist st)) = dc start goal + path_cost es"
proof -
  let ?cur = "hd (m_openlist st)"
  let ?nd = "\<lambda>p. m_node (store st ! p)"
  note wf1 = wf_search_close_front [OF std wf ne]
  note g1 = wf_graph_close_front [OF wf g ne, of ops]
  have "?cur \<in> set (m_closedlist (close_front ops st))" by (simp add: close_front_fields)
  from closed_chain [OF wf1 g1 this, of "[]"] obtain ps es where
    w: "walk_parents (store st) (Some ?cur) [] = Some (None, map ?nd ps)"
    and ps: "ps \<noteq> []" "hd ps = ?cur" "parent_chain (store st) ps" "last (map ?nd ps) = start"
    and es: "is_path nb start es (?nd ?cur)" "rev (map ?nd ps) = start # map fst es"
      "m_g (store st ! ?cur) = dc start goal + path_cost es"
    by (auto simp: close_front_fields)
  from ps(1,2) fg have hd: "hd (map ?nd ps) = goal" by (simp add: hd_map front_node_def)
  from es(1,2) fg have tp: "traces_path nb start goal (map ?nd ps) es"
    by (simp add: traces_path_def front_node_def)
  from ps hd tp have "goal_to_start nb start goal (store st) (map ?nd ps)"
    unfolding goal_to_start_def by blast
  with w tp es(3) show ?thesis by blast
qed

subsection \<open>The order of the path\<close>

lemma FindPath_loop_goal_to_start:
  assumes std: "std_heap ops" and run: "FindPath_loop ops goal nb fp st = Some r"
  shows "wf_search st \<and> wf_graph nb dc start goal st \<longrightarrow> fst r = PATH_FOUND \<longrightarrow>
           goal_to_start nb start goal (store (snd (snd r))) (fst (snd r))"
  using run
proof (induction rule: FindPath_loop_induct)
  case (notfound st)
  show ?case by simp
next
  case (found st c path)
  show ?case
  proof (intro impI, elim conjE)
    assume wf: "wf_search st" and g: "wf_graph nb dc start goal st"
    from front_chain [OF std wf g found(1,2)] found(3)
    show "goal_to_start nb start goal
            (store (snd (snd (PATH_FOUND, path, (close_front ops st)\<lparr> m_currentnode := c \<rparr>))))
            (fst (snd (PATH_FOUND, path, (close_front ops st)\<lparr> m_currentnode := c \<rparr>)))"
      by (auto simp: close_front_fields)
  qed
next
  case (expand st st2 r)
  show ?case
  proof (intro impI, elim conjE)
    assume wf: "wf_search st" and g: "wf_graph nb dc start goal st" and f: "fst r = PATH_FOUND"
    from expand_inv(1,2) [OF std wf g expand(1,3)] expand.IH f
    show "goal_to_start nb start goal (store (snd (snd r))) (fst (snd r))" by blast
  qed
qed

lemma StepLoop_goal_to_start:
  assumes std: "std_heap ops" and run: "StepLoop ops st = Some r"
  shows "wf_search st \<and> wf_graph nb dc start goal st \<and> m_getneighbors st = nb \<longrightarrow>
           fst r = PATH_FOUND \<longrightarrow>
           (\<exists>p. GetPath (snd r) x = Some p \<and> goal_to_start nb start goal (store (snd r)) p)"
  using run
proof (induction rule: StepLoop_induct)
  case (last st c st')
  show ?case
  proof (intro impI, elim conjE)
    assume wf: "wf_search st" and g: "wf_graph nb dc start goal st"
      and f: "fst (c, st') = PATH_FOUND"
    from g have mg: "m_goal st = goal" by (simp add: wf_graph_def)
    from last(1) f have ne: "m_openlist st \<noteq> []" and fg: "front_node st = goal"
      and st': "st' = close_front ops st"
      by (auto simp: Step_unfold mg split: if_splits option.splits)
    from front_chain [OF std wf g ne fg] obtain path where
      "walk_parents (store st) (Some (hd (m_openlist st))) [] = Some (None, path)"
      "goal_to_start nb start goal (store st) path" by blast
    then show "\<exists>p. GetPath (snd (c, st')) x = Some p \<and>
                 goal_to_start nb start goal (store (snd (c, st'))) p"
      by (simp add: GetPath_def st' close_front_fields)
  qed
next
  case (again st st' r)
  show ?case
  proof (intro impI, elim conjE)
    assume wf: "wf_search st" and g: "wf_graph nb dc start goal st"
      and n: "m_getneighbors st = nb" and f: "fst r = PATH_FOUND"
    from g have mg: "m_goal st = goal" by (simp add: wf_graph_def)
    from again(1) have ne: "m_openlist st \<noteq> []"
      and a: "AddNeighbors ops (close_front ops st) (nb (front_node st)) = Some st'"
      by (auto simp: Step_unfold mg n split: if_splits option.splits)
    from AddNeighbors_getneighbors [OF a] n have "m_getneighbors st' = nb"
      by (simp add: close_front_def Let_def)
    with expand_inv(1,2) [OF std wf g ne a] again.IH f
    show "\<exists>p. GetPath (snd r) x = Some p \<and> goal_to_start nb start goal (store (snd r)) p"
      by blast
  qed
qed

lemma line_path:
  assumes std: "std_heap ops"
  shows "\<exists>st' c. FindPath ops st 0 2 fp (\<lambda>_ _. 0) line_nb = Some (PATH_FOUND, [2, 1, 0], st') \<and>
           node_of st' 2 = Some c \<and> m_g (store st' ! c) = 2"
  by (simp add: FindPath_def Let_def FindPath_loop_unfold front_node_def close_front_def
        AddNeighbor_def line_nb_def std_push_heap_single [OF std] std_pop_heap_single [OF std]
        walk_parents_Some walk_parents_None listelement0_def node_of_def)

text \<open>
  Claim C4. When \<^verbatim>\<open>FindPath\<close> returns \<^verbatim>\<open>PATH_FOUND\<close>, and when \<^verbatim>\<open>Step\<close> has answered
  \<^verbatim>\<open>PATH_FOUND\<close> and \<^verbatim>\<open>GetPath\<close> is called, the path starts with the goal, continues with
  the parent of each node in turn and ends with the start; read backwards it follows edges
  of the graph from start to goal. On the line graph 0 - 1 - 2 with unit costs and zero
  estimate, \<^verbatim>\<open>FindPath\<close> from 0 to 2 returns \<^verbatim>\<open>PATH_FOUND\<close> with the path \<open>[2, 1, 0]\<close>, and
  the node of state 2 has \<open>g = 2\<close>.
\<close>

theorem path_goal_to_start:
  assumes "std_heap ops"
  shows "(FindPath ops st start goal fp dc nb = Some (PATH_FOUND, fp', st1) \<longrightarrow>
            goal_to_start nb start goal (store st1) fp') \<and>
         (StepLoop ops (InitializeStep ops st start goal dc nb) = Some (PATH_FOUND, st2) \<longrightarrow>
            (\<exists>p. GetPath st2 x = Some p \<and> goal_to_start nb start goal (store st2) p)) \<and>
         (\<exists>st3 c. FindPath ops sta 0 2 fpa (\<lambda>_ _. 0) line_nb = Some (PATH_FOUND, [2, 1, 0], st3) \<and>
            node_of st3 2 = Some c \<and> m_g (store st3 ! c) = 2)"
proof (intro conjI impI)
  assume "FindPath ops st start goal fp dc nb = Some (PATH_FOUND, fp', st1)"
  then have "FindPath_loop ops goal nb fp
      ((InitializeStep ops st start goal dc nb)\<lparr> m_start := m_start st,
         m_getneighbors := m_getneighbors st \<rparr>) = Some (PATH_FOUND, fp', st1)"
    by (simp add: FindPath_as_loop [where nb' = nb])
  from FindPath_loop_goal_to_start [OF assms this, of dc start]
    wf_search_start [OF assms] wf_graph_start
  show "goal_to_start nb start goal (store st1) fp'" by fastforce
next
  assume s: "StepLoop ops (InitializeStep ops st start goal dc nb) = Some (PATH_FOUND, st2)"
  have e: "InitializeStep ops st start goal dc nb
       = (InitializeStep ops st start goal dc nb)\<lparr> m_start := start, m_getneighbors := nb \<rparr>"
    by (simp add: InitializeStep_start_getneighbors)
  have "wf_search (InitializeStep ops st start goal dc nb)"
    by (subst e) (rule wf_search_start [OF assms])
  moreover have "wf_graph nb dc start goal (InitializeStep ops st start goal dc nb)"
    by (subst e) (rule wf_graph_start)
  moreover have "m_getneighbors (InitializeStep ops st start goal dc nb) = nb"
    by (simp add: InitializeStep_def Let_def)
  ultimately show "\<exists>p. GetPath st2 x = Some p \<and> goal_to_start nb start goal (store st2) p"
    using StepLoop_goal_to_start [OF assms s, of nb dc start goal x] by simp
next
  show "\<exists>st3 c. FindPath ops sta 0 2 fpa (\<lambda>_ _. 0) line_nb = Some (PATH_FOUND, [2, 1, 0], st3) \<and>
            node_of st3 2 = Some c \<and> m_g (store st3 ! c) = 2"
    by (rule line_path [OF assms])
qed

theorem path_goal_to_start_witness:
  "std_heap sorting_heap \<and>
   (\<exists>st1 st2 p. FindPath sorting_heap astar0 0 2 [] (\<lambda>_ _. 0) line_nb
                  = Some (PATH_FOUND, [2, 1, 0], st1) \<and>
      goal_to_start line_nb 0 2 (store st1) [2, 1, 0] \<and>
      StepLoop sorting_heap (InitializeStep sorting_heap astar0 0 2 (\<lambda>_ _. 0) line_nb)
        = Some (PATH_FOUND, st2) \<and>
      GetPath st2 [] = Some p \<and> goal_to_start line_nb 0 2 (store st2) p)"
proof -
  have "outcome (FindPath sorting_heap astar0 0 2 [] (\<lambda>_ _. 0) line_nb)
          = Some (PATH_FOUND, [2, 1, 0])"
    by code_simp
  then obtain st1 where
    f: "FindPath sorting_heap astar0 0 2 [] (\<lambda>_ _. 0) line_nb = Some (PATH_FOUND, [2, 1, 0], st1)"
    by (auto simp: outcome_def)
  have "map_option fst (StepLoop sorting_heap
          (InitializeStep sorting_heap astar0 0 2 (\<lambda>_ _. 0) line_nb)) = Some PATH_FOUND"
    by code_simp
  then obtain st2 where
    s: "StepLoop sorting_heap (InitializeStep sorting_heap astar0 0 2 (\<lambda>_ _. 0) line_nb)
          = Some (PATH_FOUND, st2)"
    by auto
  from path_goal_to_start [OF std_heap_sorting_heap, where st = astar0 and start = 0 and goal = 2
      and fp = "[]" and dc = "\<lambda>_ _. 0" and nb = line_nb and fp' = "[2, 1, 0]" and ?st1.0 = st1
      and ?st2.0 = st2 and x = "[]"] f s std_heap_sorting_heap
  show ?thesis by blast
qed

subsection \<open>The cache window\<close>











subsection \<open>Clearing one cache entry\<close>





lemma size_t_of_shift: "size_t_of (x + 2 ^ 64 + y) = size_t_of (x + y)"
proof -
  have "x + 2 ^ 64 + y = (x + y) + 2 ^ 64" by simp
  then show ?thesis unfolding size_t_of_def by (simp only: mod_add_self2)
qed




end
